theory Spec2Isabelle
  imports
    Main
    "HOL-Library.Char_ord"
    "HOL-Library.List_Lexorder"
    "HOL-Library.Product_Lexorder"
begin

section \<open>Machine integers\<close>

text \<open>
  The C++ type \<open>int\<close> of \<^verbatim>\<open>food_delivery.cpp\<close> is modelled by \<open>int\<close> with the
  32-bit two's complement wrap-around written out: every addition of the source
  (\<^verbatim>\<open>nextOrderId++\<close>, \<^verbatim>\<open>distances[current] + weight\<close>, \<^verbatim>\<open>totalDistance += ...\<close>,
  \<^verbatim>\<open>distance1 + distance2\<close>) is \<open>add32\<close>.  Where no overflow happens, \<open>add32\<close> is
  the mathematical sum.  Signed overflow is undefined behaviour in C++; the model takes
  the two's complement result, and a statement that depends on a sum says in its
  hypotheses what keeps the sum in range.
\<close>

definition INT_MAX :: int where
  "INT_MAX = 2147483647"

definition wrap32 :: "int \<Rightarrow> int" where
  "wrap32 x = (x + 2147483648) mod 4294967296 - 2147483648"

definition add32 :: "int \<Rightarrow> int \<Rightarrow> int" where
  "add32 a b = wrap32 (a + b)"

section \<open>Ordered maps\<close>

text \<open>
  A \<^verbatim>\<open>std::map<K, V>\<close> that the program iterates over is an association list whose
  keys are kept in strictly ascending order, the order in which a range-for visits the
  entries.  \<open>map_count\<close> is \<^verbatim>\<open>m.count(k)\<close> (and \<^verbatim>\<open>m.find(k) != m.end()\<close>),
  \<open>map_assign\<close> is \<^verbatim>\<open>m[k] = v\<close>, and \<open>map_index\<close> is the read \<^verbatim>\<open>m[k]\<close>, which
  inserts a value-initialised entry when the key is missing and returns the map with it.
\<close>

type_synonym ('k, 'v) cmap = "('k \<times> 'v) list"

definition map_count :: "('k, 'v) cmap \<Rightarrow> 'k \<Rightarrow> bool" where
  "map_count m k = (map_of m k \<noteq> None)"

fun map_assign :: "'k::linorder \<Rightarrow> 'v \<Rightarrow> ('k, 'v) cmap \<Rightarrow> ('k, 'v) cmap" where
  "map_assign k v [] = [(k, v)]"
| "map_assign k v ((a, b) # m) =
     (if k = a then (k, v) # m
      else if k < a then (k, v) # (a, b) # m
      else (a, b) # map_assign k v m)"

definition map_index :: "('k::linorder, 'v) cmap \<Rightarrow> 'k \<Rightarrow> 'v \<Rightarrow> 'v \<times> ('k, 'v) cmap" where
  "map_index m k dflt =
     (case map_of m k of
        Some v \<Rightarrow> (v, m)
      | None \<Rightarrow> (dflt, map_assign k dflt m))"

type_synonym graph = "(string, (string, int) cmap) cmap"

text \<open>
  \<open>map_index2\<close> is the read \<^verbatim>\<open>deliveryGraph[start][end]\<close>: the inner map is reached by
  reference, so an entry inserted into it is an entry of the graph.
\<close>

definition map_index2 :: "graph \<Rightarrow> string \<Rightarrow> string \<Rightarrow> int \<times> graph" where
  "map_index2 g a b =
     (case map_of g a of
        None \<Rightarrow> (0, map_assign a [(b, 0)] g)
      | Some adj \<Rightarrow>
          (case map_of adj b of
             None \<Rightarrow> (0, map_assign a (map_assign b 0 adj) g)
           | Some w \<Rightarrow> (w, g)))"

section \<open>Orders and the state of the system\<close>

text \<open>
  \<^verbatim>\<open>struct Order\<close>.  The price is a \<^verbatim>\<open>double\<close> that the program only stores and
  prints; it is a type parameter, with \<open>0\<close> for the value-initialised price.
\<close>

record 'p Order =
  id' :: int
  restaurant :: string
  destination :: string
  price :: 'p

text \<open>
  The private members of \<^verbatim>\<open>class FoodDeliverySystem\<close>.  The queue is a list with its
  front first, the stack a list with its top first.
\<close>

record 'p FoodDeliverySystem =
  incomingOrders :: "'p Order list"
  completedOrders :: "'p Order list"
  deliveryGraph :: graph
  allOrders :: "(int, 'p Order) cmap"
  nextOrderId :: int

definition initial :: "'p FoodDeliverySystem" where
  "initial = \<lparr>incomingOrders = [], completedOrders = [], deliveryGraph = [],
              allOrders = [], nextOrderId = 1001\<rparr>"

definition default_order :: "'p::zero Order" where
  "default_order = \<lparr>id' = 0, restaurant = [], destination = [], price = 0\<rparr>"

section \<open>findShortestPath\<close>

text \<open>
  The locals of \<^verbatim>\<open>findShortestPath\<close>.  \<open>distances\<close> and \<open>predecessors\<close> are only
  looked up and assigned, never iterated; \<open>visited\<close> is only tested for membership, and
  lists its elements most recent first; \<open>pq\<close> holds the entries of the priority queue,
  whose top is the least pair (distance first, then name, as \<^verbatim>\<open>greater<pair<int,string>>\<close>
  orders them).
\<close>

record dijkstra =
  distances :: "string \<rightharpoonup> int"
  predecessors :: "string \<rightharpoonup> string"
  visited :: "string list"
  pq :: "(int \<times> string) list"

definition initDistances :: "graph \<Rightarrow> (string \<rightharpoonup> int)" where
  "initDistances g = fold (\<lambda>pair d. d(fst pair \<mapsto> INT_MAX)) g Map.empty"

text \<open>The read \<^verbatim>\<open>distances[k]\<close>: its value, and the map it leaves behind.\<close>

definition dist_read :: "(string \<rightharpoonup> int) \<Rightarrow> string \<Rightarrow> int" where
  "dist_read d k = (case d k of None \<Rightarrow> 0 | Some v \<Rightarrow> v)"

definition dist_touch :: "(string \<rightharpoonup> int) \<Rightarrow> string \<Rightarrow> (string \<rightharpoonup> int)" where
  "dist_touch d k = (case d k of None \<Rightarrow> d(k \<mapsto> 0) | Some v \<Rightarrow> d)"

text \<open>One pass of the body of the range-for over the edges of \<open>current\<close>.\<close>

definition relax :: "string \<Rightarrow> string \<times> int \<Rightarrow> dijkstra \<Rightarrow> dijkstra" where
  "relax current edge st =
     (let neighbor = fst edge; weight = snd edge;
          dc = dist_read (distances st) current;
          d1 = dist_touch (distances st) current
      in if dc \<noteq> INT_MAX then
           (let dn = dist_read d1 neighbor; d2 = dist_touch d1 neighbor
            in if add32 dc weight < dn then
                 st\<lparr>distances := d2(neighbor \<mapsto> add32 dc weight),
                    predecessors := (predecessors st)(neighbor \<mapsto> current),
                    pq := (add32 dc weight, neighbor) # pq st\<rparr>
               else st\<lparr>distances := d2\<rparr>)
         else st\<lparr>distances := d1\<rparr>)"

definition exploreNeighbors :: "graph \<Rightarrow> string \<Rightarrow> dijkstra \<Rightarrow> dijkstra \<times> graph" where
  "exploreNeighbors g current st =
     (if map_count g current then
        (case map_index g current [] of
           (adj, g') \<Rightarrow> (fold (relax current) adj st, g'))
      else (st, g))"

text \<open>
  The top of a priority queue with the entries \<open>x # xs\<close>: the least of them.  Popping
  removes one occurrence of it.
\<close>

definition pq_top :: "int \<times> string \<Rightarrow> (int \<times> string) list \<Rightarrow> int \<times> string" where
  "pq_top x xs = fold min xs x"

text \<open>
  The names that occur in a graph, as keys or as neighbours.  With the names in the
  queue they bound the locations that the loop can still visit, which is why it ends.
\<close>

definition names_of :: "graph \<Rightarrow> string set" where
  "names_of g = fst ` set g \<union> (\<Union>e \<in> set g. fst ` set (snd e))"

lemma map_index_present:
  "map_count m k \<Longrightarrow> map_index m k dflt = (the (map_of m k), m)"
  by (auto simp: map_count_def map_index_def)

lemma relax_visited: "visited (relax c e st) = visited st"
  by (simp add: relax_def Let_def)

lemma relax_pq_names:
  "snd ` set (pq (relax c e st)) \<subseteq> insert (fst e) (snd ` set (pq st))"
  by (auto simp: relax_def Let_def)

lemma fold_relax_visited: "visited (fold (relax c) adj st) = visited st"
  by (induction adj arbitrary: st) (simp_all add: relax_visited)

lemma fold_relax_pq_names:
  "snd ` set (pq (fold (relax c) adj st)) \<subseteq> fst ` set adj \<union> snd ` set (pq st)"
proof (induction adj arbitrary: st)
  case Nil
  then show ?case by simp
next
  case (Cons e adj)
  have "snd ` set (pq (fold (relax c) adj (relax c e st)))
          \<subseteq> fst ` set adj \<union> snd ` set (pq (relax c e st))"
    by (rule Cons.IH)
  with relax_pq_names [of c e st]
  have "snd ` set (pq (fold (relax c) adj (relax c e st)))
          \<subseteq> fst ` set adj \<union> insert (fst e) (snd ` set (pq st))"
    by blast
  then show ?case by auto
qed

lemma exploreNeighbors_graph: "snd (exploreNeighbors g c st) = g"
  by (simp add: exploreNeighbors_def map_index_present)

lemma exploreNeighbors_visited: "visited (fst (exploreNeighbors g c st)) = visited st"
  by (simp add: exploreNeighbors_def map_index_present fold_relax_visited)

lemma exploreNeighbors_pq_names:
  "snd ` set (pq (fst (exploreNeighbors g c st))) \<subseteq> names_of g \<union> snd ` set (pq st)"
proof (cases "map_of g c")
  case None
  then show ?thesis by (simp add: exploreNeighbors_def map_count_def)
next
  case (Some adj)
  then have "(c, adj) \<in> set g" by (rule map_of_SomeD)
  then have "fst ` set adj \<subseteq> names_of g"
    by (force simp: names_of_def)
  with Some fold_relax_pq_names [of c adj st] show ?thesis
    by (auto simp: exploreNeighbors_def map_count_def map_index_def)
qed

lemma pq_top_in: "pq_top x xs \<in> set (x # xs)"
  unfolding pq_top_def
proof (induction xs arbitrary: x)
  case Nil
  then show ?case by simp
next
  case (Cons y ys)
  have "fold min ys (min y x) \<in> set (min y x # ys)" by (rule Cons.IH)
  moreover have "min y x = x \<or> min y x = y" by (simp add: min_def)
  ultimately show ?case by auto
qed

text \<open>
  The \<^verbatim>\<open>while (!pq.empty())\<close> loop.  The graph is a member of the object, read through
  \<^verbatim>\<open>operator[]\<close>, so the loop returns it with the locals.
\<close>

function dijkstraLoop :: "graph \<Rightarrow> dijkstra \<Rightarrow> dijkstra \<times> graph" where
  "dijkstraLoop g st =
     (case pq st of
        [] \<Rightarrow> (st, g)
      | x # xs \<Rightarrow>
          (let top = pq_top x xs;
               current = snd top;
               st1 = st\<lparr>pq := remove1 top (x # xs)\<rparr>
           in if current \<in> set (visited st1) then dijkstraLoop g st1
              else dijkstraLoop
                     (snd (exploreNeighbors g current (st1\<lparr>visited := current # visited st1\<rparr>)))
                     (fst (exploreNeighbors g current (st1\<lparr>visited := current # visited st1\<rparr>)))))"
  by pat_completeness auto
termination
proof (relation "inv_image (less_than <*lex*> less_than)
    (\<lambda>(g, st). (card ((names_of g \<union> snd ` set (pq st)) - set (visited st)), length (pq st)))",
    goal_cases)
  case 1
  then show ?case by (intro wf_inv_image wf_lex_prod wf_less_than)
next
  case (2 g st x xs top current st1)
  have fin: "finite (names_of g \<union> snd ` set (pq st))"
    by (simp add: names_of_def)
  have mem: "top \<in> set (x # xs)" using 2 pq_top_in by simp
  have sub: "snd ` set (remove1 top (x # xs)) \<subseteq> snd ` set (pq st)"
    using 2(1) set_remove1_subset [of top "x # xs"] by auto
  have "length (remove1 top (x # xs)) = length (x # xs) - 1"
    using mem by (simp only: length_remove1 if_True)
  then have len: "length (remove1 top (x # xs)) < length (pq st)"
    using 2(1) by simp
  have "(names_of g \<union> snd ` set (remove1 top (x # xs))) - set (visited st)
          \<subseteq> (names_of g \<union> snd ` set (pq st)) - set (visited st)"
    using sub by blast
  moreover have "finite ((names_of g \<union> snd ` set (pq st)) - set (visited st))"
    using fin by simp
  ultimately
  have "card ((names_of g \<union> snd ` set (remove1 top (x # xs))) - set (visited st))
          \<le> card ((names_of g \<union> snd ` set (pq st)) - set (visited st))"
    by (rule card_mono [rotated])
  with len show ?case using 2 by auto
next
  case (3 g st x xs top current st1)
  let ?st2 = "st1\<lparr>visited := current # visited st1\<rparr>"
  have fin: "finite (names_of g \<union> snd ` set (pq st))"
    by (simp add: names_of_def)
  have mem: "top \<in> set (pq st)" using 3 pq_top_in by simp
  have cur: "current \<in> snd ` set (pq st)" using mem 3 by force
  have sub: "snd ` set (pq ?st2) \<subseteq> snd ` set (pq st)"
    using 3 set_remove1_subset [of top "x # xs"] by auto
  have "snd ` set (pq (fst (exploreNeighbors g current ?st2)))
          \<subseteq> names_of g \<union> snd ` set (pq ?st2)"
    by (rule exploreNeighbors_pq_names)
  with sub have sub': "snd ` set (pq (fst (exploreNeighbors g current ?st2)))
          \<subseteq> names_of g \<union> snd ` set (pq st)" by blast
  have vis: "visited (fst (exploreNeighbors g current ?st2)) = current # visited st"
    using 3 by (simp add: exploreNeighbors_visited)
  have notin: "current \<notin> set (visited st)" using 3 by simp
  have "(names_of g \<union> snd ` set (pq (fst (exploreNeighbors g current ?st2))))
          - set (current # visited st)
        \<subseteq> ((names_of g \<union> snd ` set (pq st)) - set (visited st)) - {current}"
    using sub' by (simp add: subset_iff) blast
  moreover have "current \<in> (names_of g \<union> snd ` set (pq st)) - set (visited st)"
    using cur notin by blast
  ultimately
  have "(names_of g \<union> snd ` set (pq (fst (exploreNeighbors g current ?st2))))
          - set (current # visited st)
        \<subset> (names_of g \<union> snd ` set (pq st)) - set (visited st)"
    by blast
  moreover have "finite ((names_of g \<union> snd ` set (pq st)) - set (visited st))"
    using fin by simp
  ultimately
  have "card ((names_of g \<union> snd ` set (pq (fst (exploreNeighbors g current ?st2))))
          - set (current # visited st))
        < card ((names_of g \<union> snd ` set (pq st)) - set (visited st))"
    by (rule psubset_card_mono [rotated])
  then show ?case by (simp add: vis exploreNeighbors_graph)
qed

declare dijkstraLoop.simps [simp del]

text \<open>
  The loop that walks the predecessors back from \<open>end\<close>.  Nothing bounds it when the
  predecessor links form a cycle that avoids \<open>start\<close>, so not returning is the value
  \<open>None\<close>.
\<close>

partial_function (option) walkBack ::
  "(string \<rightharpoonup> string) \<Rightarrow> string \<Rightarrow> string \<Rightarrow> string list \<Rightarrow> string list option" where
  "walkBack preds start current path =
     (case preds current of
        None \<Rightarrow> Some path
      | Some previous \<Rightarrow>
          (if previous = start then Some (path @ [current] @ [start])
           else walkBack preds start previous (path @ [current])))"

declare walkBack.simps [code]

definition findShortestPath :: "graph \<Rightarrow> string \<Rightarrow> string \<Rightarrow> (string list \<times> graph) option" where
  "findShortestPath g start end' =
     (let distances0 = initDistances g
      in if distances0 start = None then Some ([], g)
         else
           (case dijkstraLoop g \<lparr>distances = distances0(start \<mapsto> 0),
                                  predecessors = Map.empty,
                                  visited = [],
                                  pq = [(0, start)]\<rparr> of
              (st, g') \<Rightarrow>
                (case distances st end' of
                   None \<Rightarrow> Some ([], g')
                 | Some d \<Rightarrow>
                     if d = INT_MAX then Some ([], g')
                     else
                       (case walkBack (predecessors st) start end' [] of
                          None \<Rightarrow> None
                        | Some walked \<Rightarrow>
                            (let path = rev walked
                             in if path \<noteq> [] \<and> hd path = start then Some (path, g')
                                else Some ([], g'))))))"

section \<open>calculatePathDistance\<close>

fun pathLoop :: "graph \<Rightarrow> string list \<Rightarrow> int \<Rightarrow> int \<times> graph" where
  "pathLoop g (start # end' # rest) totalDistance =
     (if map_count g start then
        (case map_index g start [] of
           (adj, g1) \<Rightarrow>
             if map_count adj end' then
               (case map_index2 g1 start end' of
                  (w, g2) \<Rightarrow> pathLoop g2 (end' # rest) (add32 totalDistance w))
             else (INT_MAX, g1))
      else (INT_MAX, g))"
| "pathLoop g path totalDistance = (totalDistance, g)"

definition calculatePathDistance :: "graph \<Rightarrow> string list \<Rightarrow> int \<times> graph" where
  "calculatePathDistance g path = (if length path < 2 then (0, g) else pathLoop g path 0)"

section \<open>The public operations\<close>

text \<open>
  What an operation writes to the console, as a value.  In a \<open>RouteReport\<close> a distance
  of \<open>None\<close> is the line \<^verbatim>\<open>N/A (Route not found)\<close>, a path of \<open>None\<close> is a path line
  that is not printed, and a total of \<open>None\<close> is
  \<^verbatim>\<open>Cannot be calculated (Missing route)\<close>.
\<close>

record report =
  leg1_distance :: "int option"
  leg1_path :: "string list option"
  leg2_distance :: "int option"
  leg2_path :: "string list option"
  total :: "int option"

datatype 'p outcome =
    LocationAdded string
  | LocationExists string
  | RouteAdded string string int
  | ErrLocationMissing
  | OrderPlaced int string string
  | ErrOrderLocationMissing
  | NoPendingOrders
  | Delivered int
  | NoDeliveries
  | LastDelivery int string string
  | QueueEmpty
  | PendingOrders "'p Order list"
  | OrderNotFound int
  | DepotMissing
  | RouteReport report
  | NothingToRevert
  | Reverted int
  | SystemStatus nat nat int nat "string list"

definition addLocation ::
  "'p FoodDeliverySystem \<Rightarrow> string \<Rightarrow> 'p outcome \<times> 'p FoodDeliverySystem" where
  "addLocation s name =
     (if \<not> map_count (deliveryGraph s) name
      then (LocationAdded name, s\<lparr>deliveryGraph := map_assign name [] (deliveryGraph s)\<rparr>)
      else (LocationExists name, s))"

text \<open>
  \<^verbatim>\<open>deliveryGraph[start][end] = distance\<close> assigns into the inner map of \<open>start\<close>, which
  the guard has found.
\<close>

definition set_edge :: "graph \<Rightarrow> string \<Rightarrow> string \<Rightarrow> int \<Rightarrow> graph" where
  "set_edge g a b w =
     (case map_index g a [] of (adj, g1) \<Rightarrow> map_assign a (map_assign b w adj) g1)"

definition addRoute ::
  "'p FoodDeliverySystem \<Rightarrow> string \<Rightarrow> string \<Rightarrow> int \<Rightarrow> 'p outcome \<times> 'p FoodDeliverySystem" where
  "addRoute s start end' distance =
     (if map_count (deliveryGraph s) start \<and> map_count (deliveryGraph s) end'
      then (RouteAdded start end' distance,
            s\<lparr>deliveryGraph :=
                 set_edge (set_edge (deliveryGraph s) start end' distance) end' start distance\<rparr>)
      else (ErrLocationMissing, s))"

definition placeOrder ::
  "'p FoodDeliverySystem \<Rightarrow> string \<Rightarrow> string \<Rightarrow> 'p \<Rightarrow> 'p outcome \<times> 'p FoodDeliverySystem" where
  "placeOrder s restaurant' destination' price' =
     (if map_count (deliveryGraph s) restaurant' \<and> map_count (deliveryGraph s) destination'
      then
        (let newOrder = \<lparr>id' = nextOrderId s, restaurant = restaurant',
                          destination = destination', price = price'\<rparr>
         in (OrderPlaced (id' newOrder) (restaurant newOrder) (destination newOrder),
             s\<lparr>nextOrderId := add32 (nextOrderId s) 1,
                incomingOrders := incomingOrders s @ [newOrder],
                allOrders := map_assign (id' newOrder) newOrder (allOrders s)\<rparr>))
      else (ErrOrderLocationMissing, s))"

definition processNextOrder ::
  "'p FoodDeliverySystem \<Rightarrow> 'p outcome \<times> 'p FoodDeliverySystem" where
  "processNextOrder s =
     (case incomingOrders s of
        [] \<Rightarrow> (NoPendingOrders, s)
      | orderToProcess # rest \<Rightarrow>
          (Delivered (id' orderToProcess),
           s\<lparr>incomingOrders := rest,
              completedOrders := orderToProcess # completedOrders s\<rparr>))"

definition trackLastDelivery ::
  "'p FoodDeliverySystem \<Rightarrow> 'p outcome \<times> 'p FoodDeliverySystem" where
  "trackLastDelivery s =
     (case completedOrders s of
        [] \<Rightarrow> (NoDeliveries, s)
      | lastOrder # rest \<Rightarrow>
          (LastDelivery (id' lastOrder) (restaurant lastOrder) (destination lastOrder), s))"

definition listPendingOrders ::
  "'p FoodDeliverySystem \<Rightarrow> 'p outcome \<times> 'p FoodDeliverySystem" where
  "listPendingOrders s =
     (if incomingOrders s = [] then (QueueEmpty, s)
      else (PendingOrders (incomingOrders s), s))"

definition revertLastDelivery ::
  "'p FoodDeliverySystem \<Rightarrow> 'p outcome \<times> 'p FoodDeliverySystem" where
  "revertLastDelivery s =
     (case completedOrders s of
        [] \<Rightarrow> (NothingToRevert, s)
      | revertedOrder # rest \<Rightarrow>
          (Reverted (id' revertedOrder),
           s\<lparr>completedOrders := rest,
              incomingOrders := incomingOrders s @ [revertedOrder]\<rparr>))"

definition systemStatus ::
  "'p FoodDeliverySystem \<Rightarrow> 'p outcome \<times> 'p FoodDeliverySystem" where
  "systemStatus s =
     (SystemStatus (length (incomingOrders s)) (length (completedOrders s)) (nextOrderId s)
        (length (deliveryGraph s)) (map fst (deliveryGraph s)), s)"

text \<open>
  \<^verbatim>\<open>optimizeDeliveryRoute\<close>.  It returns nothing when one of its two calls of
  \<^verbatim>\<open>findShortestPath\<close> does not return.  The order index and the graph are members
  read through \<^verbatim>\<open>operator[]\<close>, so the state they are left in is part of the result.
\<close>

definition optimizeDeliveryRoute ::
  "'p::zero FoodDeliverySystem \<Rightarrow> int \<Rightarrow> ('p outcome \<times> 'p FoodDeliverySystem) option" where
  "optimizeDeliveryRoute s orderId =
     (if \<not> map_count (allOrders s) orderId then Some (OrderNotFound orderId, s)
      else
        (case map_index (allOrders s) orderId default_order of
           (order, orders') \<Rightarrow>
             (let s1 = s\<lparr>allOrders := orders'\<rparr>;
                  restaurant' = restaurant order;
                  destination' = destination order;
                  depot = ''Depot''
              in if \<not> map_count (deliveryGraph s1) depot then Some (DepotMissing, s1)
                 else
                   (case findShortestPath (deliveryGraph s1) depot restaurant' of
                      None \<Rightarrow> None
                    | Some (path1, g1) \<Rightarrow>
                        (case calculatePathDistance g1 path1 of
                           (distance1, g2) \<Rightarrow>
                             (case findShortestPath g2 restaurant' destination' of
                                None \<Rightarrow> None
                              | Some (path2, g3) \<Rightarrow>
                                  (case calculatePathDistance g3 path2 of
                                     (distance2, g4) \<Rightarrow>
                                       (let totalDistance =
                                              (if distance1 = INT_MAX \<or> distance2 = INT_MAX
                                               then - 1 else add32 distance1 distance2)
                                        in Some
                                          (RouteReport
                                             \<lparr>leg1_distance =
                                                (if distance1 \<noteq> INT_MAX then Some distance1
                                                 else None),
                                              leg1_path =
                                                (if distance1 \<noteq> INT_MAX \<and> path1 \<noteq> []
                                                 then Some path1 else None),
                                              leg2_distance =
                                                (if distance2 \<noteq> INT_MAX then Some distance2
                                                 else None),
                                              leg2_path =
                                                (if distance2 \<noteq> INT_MAX \<and> path2 \<noteq> []
                                                 then Some path2 else None),
                                              total =
                                                (if totalDistance \<noteq> - 1
                                                 then Some totalDistance else None)\<rparr>,
                                           s1\<lparr>deliveryGraph := g4\<rparr>)))))))))"

section \<open>The menu loop\<close>

text \<open>
  A command is one choice of the menu of \<^verbatim>\<open>main\<close> with the inputs read for it;
  \<open>execute\<close> is the \<^verbatim>\<open>switch\<close>, and \<open>run\<close> a sequence of choices, with the outcomes in
  the order they were printed.  The choice 0 and an invalid choice call no operation.
  \<^verbatim>\<open>main\<close> registers Depot before its loop: its runs are the runs from \<open>initial\<close>
  that begin with \<open>AddLocation ''Depot''\<close>.  A run is \<open>None\<close> when one of its
  operations does not return.
\<close>

datatype 'p command =
    AddLocation string
  | AddRoute string string int
  | PlaceOrder string string 'p
  | ProcessNextOrder
  | TrackLastDelivery
  | ListPendingOrders
  | OptimizeDeliveryRoute int
  | RevertLastDelivery
  | ViewSystemStatus

fun execute ::
  "'p::zero FoodDeliverySystem \<Rightarrow> 'p command \<Rightarrow> ('p outcome \<times> 'p FoodDeliverySystem) option" where
  "execute s (AddLocation name) = Some (addLocation s name)"
| "execute s (AddRoute start end' dist) = Some (addRoute s start end' dist)"
| "execute s (PlaceOrder rest dest price') = Some (placeOrder s rest dest price')"
| "execute s ProcessNextOrder = Some (processNextOrder s)"
| "execute s TrackLastDelivery = Some (trackLastDelivery s)"
| "execute s ListPendingOrders = Some (listPendingOrders s)"
| "execute s (OptimizeDeliveryRoute orderId) = optimizeDeliveryRoute s orderId"
| "execute s RevertLastDelivery = Some (revertLastDelivery s)"
| "execute s ViewSystemStatus = Some (systemStatus s)"

fun run ::
  "'p::zero FoodDeliverySystem \<Rightarrow> 'p command list
     \<Rightarrow> ('p outcome list \<times> 'p FoodDeliverySystem) option" where
  "run s [] = Some ([], s)"
| "run s (c # cs) =
     (case execute s c of
        None \<Rightarrow> None
      | Some (out, s') \<Rightarrow>
          (case run s' cs of
             None \<Rightarrow> None
           | Some (outs, s'') \<Rightarrow> Some (out # outs, s'')))"

section \<open>Graphs and walks\<close>

text \<open>
  The adjacency of a location, empty for an unknown one, and the weight stored for the
  route from \<open>a\<close> to \<open>b\<close>, if there is one.
\<close>

definition adjacency :: "graph \<Rightarrow> string \<Rightarrow> (string, int) cmap" where
  "adjacency g a = (case map_of g a of None \<Rightarrow> [] | Some adj \<Rightarrow> adj)"

definition weight_of :: "graph \<Rightarrow> string \<Rightarrow> string \<Rightarrow> int option" where
  "weight_of g a b = map_of (adjacency g a) b"

text \<open>
  A graph is valid when its keys and the keys of every adjacency are in strictly
  ascending order, as a \<^verbatim>\<open>std::map\<close> keeps them, and every neighbour is a registered
  location.  It is undirected when the weight from \<open>a\<close> to \<open>b\<close> is the weight from \<open>b\<close>
  to \<open>a\<close>.  The graph of every state that a run reaches from \<open>initial\<close> is valid and
  undirected (lemmas \<open>run_valid_graph\<close> and \<open>run_undirected\<close>).
\<close>

definition sorted_keys :: "('k::linorder, 'v) cmap \<Rightarrow> bool" where
  "sorted_keys m = sorted_wrt (<) (map fst m)"

definition valid_graph :: "graph \<Rightarrow> bool" where
  "valid_graph g =
     (sorted_keys g
      \<and> list_all (\<lambda>e. sorted_keys (snd e)) g
      \<and> list_all (\<lambda>e. list_all (\<lambda>r. map_count g (fst r)) (snd e)) g)"

definition undirected :: "graph \<Rightarrow> bool" where
  "undirected g = (\<forall>a b. weight_of g a b = weight_of g b a)"

text \<open>
  Simple and undirected, in terms of the entries: each location has one adjacency,
  \<open>b\<close> is in the adjacency of \<open>a\<close> with weight \<open>w\<close> exactly when \<open>a\<close> is in that of \<open>b\<close>
  with \<open>w\<close>, and an adjacency holds at most one weight for a neighbour.
\<close>

definition simple_undirected :: "graph \<Rightarrow> bool" where
  "simple_undirected g =
     (distinct (map fst g)
      \<and> (\<forall>a b w. ((b, w) \<in> set (adjacency g a)) = ((a, w) \<in> set (adjacency g b)))
      \<and> (\<forall>a b w w'. ((b, w) \<in> set (adjacency g a) \<and> (b, w') \<in> set (adjacency g a)) =
            ((b, w) \<in> set (adjacency g a) \<and> w' = w)))"

text \<open>
  The weights stored in a graph, and the distance that an \<open>AddRoute\<close> command carries.
\<close>

definition all_weights :: "graph \<Rightarrow> int set" where
  "all_weights g = (\<Union>e \<in> set g. snd ` set (snd e))"

fun route_distance :: "'p command \<Rightarrow> int list" where
  "route_distance (AddRoute a b d) = [d]"
| "route_distance c = []"

text \<open>
  The weights are bounded when each of them is non-negative and, multiplied by the
  number of locations, stays below \<open>INT_MAX\<close>: then no sum that the search or
  \<open>calculatePathDistance\<close> forms leaves the range of \<^verbatim>\<open>int\<close>.
\<close>

definition max_weight :: "graph \<Rightarrow> int" where
  "max_weight g = Max (insert 0 (all_weights g))"

definition bounded_weights :: "graph \<Rightarrow> bool" where
  "bounded_weights g =
     list_all (\<lambda>e. list_all (\<lambda>r. 0 \<le> snd r \<and> snd r * int (length g) < INT_MAX) (snd e)) g"

text \<open>
  A walk is a non-empty list of locations, each joined to the next by a route; its
  weight is the sum of the weights of these routes.
\<close>

fun is_walk :: "graph \<Rightarrow> string list \<Rightarrow> bool" where
  "is_walk g [] = False"
| "is_walk g [a] = map_count g a"
| "is_walk g (a # b # rest) = (weight_of g a b \<noteq> None \<and> is_walk g (b # rest))"

fun walk_weight :: "graph \<Rightarrow> string list \<Rightarrow> int" where
  "walk_weight g (a # b # rest) =
     (case weight_of g a b of None \<Rightarrow> 0 | Some w \<Rightarrow> w) + walk_weight g (b # rest)"
| "walk_weight g path = 0"

section \<open>Order ids\<close>

text \<open>
  The ids that a list of outcomes reports as placed, in their order.
\<close>

fun placed_ids :: "'p outcome list \<Rightarrow> int list" where
  "placed_ids [] = []"
| "placed_ids (OrderPlaced i r d # outs) = i # placed_ids outs"
| "placed_ids (out # outs) = placed_ids outs"

text \<open>
  The orders of a state in which \<open>n\<close> orders have been placed: the index holds the ids
  1001, ..., 1000 + \<open>n\<close> in this order, each entry under the id of its order; the queue
  and the stack together hold the orders of the index, no id twice; and the counter is
  1001 + \<open>n\<close> as an \<^verbatim>\<open>int\<close> holds it.
\<close>

definition orders_issued :: "nat \<Rightarrow> 'p FoodDeliverySystem \<Rightarrow> bool" where
  "orders_issued n s =
     (map fst (allOrders s) = map (\<lambda>k. 1001 + int k) [0..<n]
      \<and> list_all (\<lambda>(k, ord). id' ord = k) (allOrders s)
      \<and> distinct (map id' (incomingOrders s @ completedOrders s))
      \<and> set (incomingOrders s @ completedOrders s) = set (map snd (allOrders s))
      \<and> nextOrderId s = wrap32 (1001 + int n))"

section \<open>The search\<close>

text \<open>
  \<open>dval st v\<close> is the value that the read \<^verbatim>\<open>distances[v]\<close> gives in the state \<open>st\<close>.
  \<open>search_start\<close> is the state in which \<open>findShortestPath\<close> enters its loop, \<open>search\<close>
  the state in which it leaves it, and \<open>dijkstra_distance\<close> the entry
  \<^verbatim>\<open>distances[end]\<close> that the loop ends with.
\<close>

definition dval :: "dijkstra \<Rightarrow> string \<Rightarrow> int" where
  "dval st v = dist_read (distances st) v"

definition search_start :: "graph \<Rightarrow> string \<Rightarrow> dijkstra" where
  "search_start g start =
     \<lparr>distances = (initDistances g)(start \<mapsto> 0), predecessors = Map.empty,
      visited = [], pq = [(0, start)]\<rparr>"

definition search :: "graph \<Rightarrow> string \<Rightarrow> dijkstra" where
  "search g start = fst (dijkstraLoop g (search_start g start))"

definition dijkstra_distance :: "graph \<Rightarrow> string \<Rightarrow> string \<Rightarrow> int" where
  "dijkstra_distance g start end' = dval (search g start) end'"

text \<open>
  The invariant of the loop, for a graph with bounded weights.
  \<^item> \<open>dist_ok\<close>: \<open>distances\<close> has an entry exactly for the registered locations, the
    entry of \<open>start\<close> is 0 and every entry lies between 0 and \<open>INT_MAX\<close>.
  \<^item> \<open>bound_ok\<close>: a finite entry is at most the greatest weight times the number of
    visited locations, with room for one more edge at a visited location.
  \<^item> \<open>visited_ok\<close>: the visited locations are distinct, registered and have finite
    entries, none above the entry of the location visited last.
  \<^item> \<open>queue_ok\<close>: a queue entry is not below the distance of its location; an unvisited
    location with a finite distance is in the queue with that distance; no queue entry
    is below the distance of a visited location.
  \<^item> \<open>pred_ok\<close>: a predecessor is a visited location with a route to its successor, and
    the distances differ by the weight of this route; every location other than
    \<open>start\<close> with a finite distance has a predecessor, \<open>start\<close> has none; the predecessor
    of a visited location was visited before it.
  \<^item> \<open>relaxed_ok\<close>: every route out of a visited location is relaxed, but for the
    routes \<open>todo\<close> of the location visited last, which the range-for has yet to reach.
\<close>

definition dist_ok :: "graph \<Rightarrow> string \<Rightarrow> dijkstra \<Rightarrow> bool" where
  "dist_ok g start st =
     ((\<forall>v. (distances st v \<noteq> None) = map_count g v)
      \<and> map_count g start \<and> dval st start = 0
      \<and> (\<forall>v. 0 \<le> dval st v \<and> dval st v \<le> INT_MAX))"

definition bound_ok :: "graph \<Rightarrow> dijkstra \<Rightarrow> bool" where
  "bound_ok g st =
     ((\<forall>v. dval st v \<noteq> INT_MAX \<longrightarrow> dval st v \<le> max_weight g * int (length (visited st)))
      \<and> (\<forall>v \<in> set (visited st).
            dval st v + max_weight g \<le> max_weight g * int (length (visited st))))"

definition visited_ok :: "graph \<Rightarrow> dijkstra \<Rightarrow> bool" where
  "visited_ok g st =
     (distinct (visited st)
      \<and> (\<forall>v \<in> set (visited st).
            map_count g v \<and> dval st v < INT_MAX \<and> dval st v \<le> dval st (hd (visited st))))"

definition queue_ok :: "graph \<Rightarrow> dijkstra \<Rightarrow> bool" where
  "queue_ok g st =
     ((\<forall>e \<in> set (pq st). map_count g (snd e) \<and> dval st (snd e) \<le> fst e \<and> fst e < INT_MAX)
      \<and> (\<forall>v. map_count g v \<and> dval st v < INT_MAX \<and> v \<notin> set (visited st)
             \<longrightarrow> (dval st v, v) \<in> set (pq st))
      \<and> (\<forall>u \<in> set (visited st). \<forall>e \<in> set (pq st). dval st u \<le> fst e))"

definition pred_ok :: "graph \<Rightarrow> string \<Rightarrow> dijkstra \<Rightarrow> bool" where
  "pred_ok g start st =
     ((\<forall>v p. predecessors st v = Some p \<longrightarrow>
          v \<noteq> start \<and> p \<in> set (visited st) \<and> map_count g v
          \<and> (\<exists>w. weight_of g p v = Some w \<and> dval st v = dval st p + w))
      \<and> (\<forall>v. map_count g v \<and> dval st v < INT_MAX \<and> v \<noteq> start
             \<longrightarrow> predecessors st v \<noteq> None)
      \<and> (\<forall>xs v ys p. visited st = xs @ v # ys \<and> predecessors st v = Some p \<longrightarrow> p \<in> set ys))"

definition relaxed_ok :: "graph \<Rightarrow> (string \<times> int) list \<Rightarrow> dijkstra \<Rightarrow> bool" where
  "relaxed_ok g todo st =
     (\<forall>u \<in> set (visited st). \<forall>v w. weight_of g u v = Some w \<longrightarrow>
        (u = hd (visited st) \<and> (v, w) \<in> set todo) \<or> dval st v \<le> dval st u + w)"

definition dinv :: "graph \<Rightarrow> string \<Rightarrow> (string \<times> int) list \<Rightarrow> dijkstra \<Rightarrow> bool" where
  "dinv g start todo st =
     (dist_ok g start st \<and> bound_ok g st \<and> visited_ok g st \<and> queue_ok g st
      \<and> pred_ok g start st \<and> relaxed_ok g todo st)"

text \<open>
  The state after a relaxation that succeeds.
\<close>

definition improve :: "dijkstra \<Rightarrow> string \<Rightarrow> string \<Rightarrow> int \<Rightarrow> dijkstra" where
  "improve st u v n =
     st\<lparr>distances := (distances st)(v \<mapsto> n),
        predecessors := (predecessors st)(v \<mapsto> u),
        pq := (n, v) # pq st\<rparr>"

section \<open>Concrete runs\<close>

text \<open>
  The scenario of the specification: Depot, A and B are registered, with routes
  Depot--A of 5 km and A--B of 3 km, and one order from A to B is placed.
\<close>

definition scenario_commands :: "int command list" where
  "scenario_commands =
     [AddLocation ''Depot'', AddLocation ''A'', AddLocation ''B'',
      AddRoute ''Depot'' ''A'' 5, AddRoute ''A'' ''B'' 3, PlaceOrder ''A'' ''B'' 10]"

definition scenario :: "int FoodDeliverySystem" where
  "scenario =
     \<lparr>incomingOrders = [\<lparr>id' = 1001, restaurant = ''A'', destination = ''B'', price = 10\<rparr>],
      completedOrders = [],
      deliveryGraph =
        [(''A'', [(''B'', 3), (''Depot'', 5)]), (''B'', [(''A'', 3)]), (''Depot'', [(''A'', 5)])],
      allOrders = [(1001, \<lparr>id' = 1001, restaurant = ''A'', destination = ''B'', price = 10\<rparr>)],
      nextOrderId = 1002\<rparr>"

text \<open>
  Depot, A and B are registered and only the route Depot--A exists, so B cannot be
  reached; one order goes from A to B.
\<close>

definition disconnected_commands :: "int command list" where
  "disconnected_commands =
     [AddLocation ''Depot'', AddLocation ''A'', AddLocation ''B'',
      AddRoute ''Depot'' ''A'' 5, PlaceOrder ''A'' ''B'' 10]"

definition disconnected :: "int FoodDeliverySystem" where
  "disconnected =
     \<lparr>incomingOrders = [\<lparr>id' = 1001, restaurant = ''A'', destination = ''B'', price = 10\<rparr>],
      completedOrders = [],
      deliveryGraph = [(''A'', [(''Depot'', 5)]), (''B'', []), (''Depot'', [(''A'', 5)])],
      allOrders = [(1001, \<lparr>id' = 1001, restaurant = ''A'', destination = ''B'', price = 10\<rparr>)],
      nextOrderId = 1002\<rparr>"

text \<open>
  Two graphs with negative distances, which \<open>addRoute\<close> accepts: A--C, A--D and B--D of
  \<open>-3\<close> with B--C of 0, and A--C and B--C of \<open>-4\<close>.
\<close>

definition detour_commands :: "int command list" where
  "detour_commands =
     [AddLocation ''A'', AddLocation ''B'', AddLocation ''C'', AddLocation ''D'',
      AddRoute ''A'' ''C'' (- 3), AddRoute ''A'' ''D'' (- 3),
      AddRoute ''B'' ''C'' 0, AddRoute ''B'' ''D'' (- 3)]"

definition detour_graph :: graph where
  "detour_graph =
     [(''A'', [(''C'', - 3), (''D'', - 3)]), (''B'', [(''C'', 0), (''D'', - 3)]),
      (''C'', [(''A'', - 3), (''B'', 0)]), (''D'', [(''A'', - 3), (''B'', - 3)])]"

definition fork_commands :: "int command list" where
  "fork_commands =
     [AddLocation ''A'', AddLocation ''B'', AddLocation ''C'',
      AddRoute ''A'' ''C'' (- 4), AddRoute ''B'' ''C'' (- 4)]"

definition fork_graph :: graph where
  "fork_graph =
     [(''A'', [(''C'', - 4)]), (''B'', [(''C'', - 4)]), (''C'', [(''A'', - 4), (''B'', - 4)])]"

text \<open>
  The scenario with more orders: a placement to a location that is not registered, a
  second order, the first order processed, reverted and the second one processed, and a
  third order.
\<close>

definition interleaved_commands :: "int command list" where
  "interleaved_commands =
     [AddLocation ''Depot'', AddLocation ''A'', AddLocation ''B'',
      AddRoute ''Depot'' ''A'' 5, AddRoute ''A'' ''B'' 3,
      PlaceOrder ''A'' ''B'' 10, PlaceOrder ''A'' ''Nowhere'' 15, PlaceOrder ''B'' ''A'' 20,
      ProcessNextOrder, RevertLastDelivery, ProcessNextOrder,
      PlaceOrder ''Depot'' ''B'' 30]"

definition interleaved :: "int FoodDeliverySystem" where
  "interleaved =
     \<lparr>incomingOrders =
        [\<lparr>id' = 1001, restaurant = ''A'', destination = ''B'', price = 10\<rparr>,
         \<lparr>id' = 1003, restaurant = ''Depot'', destination = ''B'', price = 30\<rparr>],
      completedOrders = [\<lparr>id' = 1002, restaurant = ''B'', destination = ''A'', price = 20\<rparr>],
      deliveryGraph =
        [(''A'', [(''B'', 3), (''Depot'', 5)]), (''B'', [(''A'', 3)]), (''Depot'', [(''A'', 5)])],
      allOrders =
        [(1001, \<lparr>id' = 1001, restaurant = ''A'', destination = ''B'', price = 10\<rparr>),
         (1002, \<lparr>id' = 1002, restaurant = ''B'', destination = ''A'', price = 20\<rparr>),
         (1003, \<lparr>id' = 1003, restaurant = ''Depot'', destination = ''B'', price = 30\<rparr>)],
      nextOrderId = 1004\<rparr>"

text \<open>
  Depot is registered, as \<^verbatim>\<open>main\<close> does before its loop, and \<open>n\<close> orders from Depot to
  Depot are placed.
\<close>

definition many_orders :: "nat \<Rightarrow> int command list" where
  "many_orders n = AddLocation ''Depot'' # replicate n (PlaceOrder ''Depot'' ''Depot'' 0)"

section \<open>The concrete runs are runs of the program\<close>

lemma scenario_reached:
  "run initial scenario_commands =
     Some ([LocationAdded ''Depot'', LocationAdded ''A'', LocationAdded ''B'',
            RouteAdded ''Depot'' ''A'' 5, RouteAdded ''A'' ''B'' 3,
            OrderPlaced 1001 ''A'' ''B''], scenario)"
  by code_simp

lemma disconnected_reached:
  "run initial disconnected_commands =
     Some ([LocationAdded ''Depot'', LocationAdded ''A'', LocationAdded ''B'',
            RouteAdded ''Depot'' ''A'' 5, OrderPlaced 1001 ''A'' ''B''], disconnected)"
  by code_simp

lemma interleaved_reached:
  "run initial interleaved_commands =
     Some ([LocationAdded ''Depot'', LocationAdded ''A'', LocationAdded ''B'',
            RouteAdded ''Depot'' ''A'' 5, RouteAdded ''A'' ''B'' 3,
            OrderPlaced 1001 ''A'' ''B'', ErrOrderLocationMissing, OrderPlaced 1002 ''B'' ''A'',
            Delivered 1001, Reverted 1001, Delivered 1002,
            OrderPlaced 1003 ''Depot'' ''B''], interleaved)"
  by code_simp

section \<open>Reads through operator[] leave the members as they are\<close>

lemma map_of_map_assign: "map_of (map_assign k v m) = (map_of m)(k \<mapsto> v)"
  by (induction m) (auto simp: fun_upd_twist)

lemma map_index2_present:
  "map_of g a = Some adj \<Longrightarrow> map_of adj b = Some w \<Longrightarrow> map_index2 g a b = (w, g)"
  by (simp add: map_index2_def)

lemma pathLoop_graph: "snd (pathLoop g path t) = g"
proof (induction g path t rule: pathLoop.induct)
  case (1 g start end' rest totalDistance)
  show ?case
  proof (cases "map_of g start")
    case None
    then show ?thesis by (simp add: map_count_def)
  next
    case (Some adj)
    note adj = this
    show ?thesis
    proof (cases "map_of adj end'")
      case None
      with adj show ?thesis by (simp add: map_count_def map_index_def)
    next
      case (Some w)
      have mi: "map_index g start [] = (adj, g)" using adj by (simp add: map_index_def)
      have mi2: "map_index2 g start end' = (w, g)" using adj Some by (rule map_index2_present)
      have cnt: "map_count g start" "map_count adj end'"
        using adj Some by (simp_all add: map_count_def)
      have "snd (pathLoop g (end' # rest) (add32 totalDistance w)) = g"
        using "1.IH" [OF cnt(1) mi [symmetric] cnt(2) mi2 [symmetric]] .
      then show ?thesis using cnt mi mi2 by simp
    qed
  qed
qed simp_all

lemma calculatePathDistance_graph: "snd (calculatePathDistance g path) = g"
  by (simp add: calculatePathDistance_def pathLoop_graph)

lemma dijkstraLoop_graph: "snd (dijkstraLoop g st) = g"
proof (induction g st rule: dijkstraLoop.induct)
  case (1 g st)
  show ?case
  proof (cases "pq st")
    case Nil
    then show ?thesis by (subst dijkstraLoop.simps) simp
  next
    case (Cons x xs)
    define top where "top = pq_top x xs"
    define st1 where "st1 = st\<lparr>pq := remove1 top (x # xs)\<rparr>"
    show ?thesis
    proof (cases "snd top \<in> set (visited st1)")
      case True
      have "snd (dijkstraLoop g st1) = g"
        using "1.IH"(1) [OF Cons top_def refl st1_def True] .
      then show ?thesis using Cons True
        by (subst dijkstraLoop.simps) (simp add: Let_def top_def st1_def)
    next
      case False
      have "snd (dijkstraLoop
                     (snd (exploreNeighbors g (snd top) (st1\<lparr>visited := snd top # visited st1\<rparr>)))
                     (fst (exploreNeighbors g (snd top) (st1\<lparr>visited := snd top # visited st1\<rparr>))))
            = snd (exploreNeighbors g (snd top) (st1\<lparr>visited := snd top # visited st1\<rparr>))"
        using "1.IH"(2) [OF Cons top_def refl st1_def False] .
      then show ?thesis using Cons False
        by (subst dijkstraLoop.simps) (simp add: Let_def top_def st1_def exploreNeighbors_graph)
    qed
  qed
qed

lemma dijkstraLoop_graph_eq: "dijkstraLoop g st = (st', g') \<Longrightarrow> g' = g"
  using dijkstraLoop_graph [of g st] by simp

lemma findShortestPath_graph:
  "findShortestPath g a b = Some (p, g') \<Longrightarrow> g' = g"
  by (auto simp: findShortestPath_def Let_def dest: dijkstraLoop_graph_eq
      split: if_splits prod.splits option.splits)

lemma findShortestPath_snd: "findShortestPath g a b = Some x \<Longrightarrow> snd x = g"
  using findShortestPath_graph [of g a b "fst x" "snd x"] by simp

lemma optimizeDeliveryRoute_frame:
  assumes run: "optimizeDeliveryRoute s orderId = Some (out, s')"
  shows "s' = s"
proof (cases "map_count (allOrders s) orderId")
  case False
  with run show ?thesis by (simp add: optimizeDeliveryRoute_def)
next
  case True
  define ord where "ord = the (map_of (allOrders s) orderId)"
  have idx: "map_index (allOrders s) orderId default_order = (ord, allOrders s)"
    unfolding ord_def using True by (rule map_index_present)
  show ?thesis
  proof (cases "map_count (deliveryGraph s) ''Depot''")
    case False
    with run True show ?thesis
      by (simp add: optimizeDeliveryRoute_def idx Let_def)
  next
    case depot: True
    from run True depot
    have "\<exists>x y. findShortestPath (deliveryGraph s) ''Depot'' (restaurant ord) = Some x
             \<and> findShortestPath (snd x) (restaurant ord) (destination ord) = Some y
             \<and> s' = s\<lparr>deliveryGraph := snd y\<rparr>"
      by (auto simp add: optimizeDeliveryRoute_def idx Let_def case_prod_beta
          calculatePathDistance_graph split: option.splits)
    then obtain x y where
      x: "findShortestPath (deliveryGraph s) ''Depot'' (restaurant ord) = Some x" and
      y: "findShortestPath (snd x) (restaurant ord) (destination ord) = Some y" and
      s': "s' = s\<lparr>deliveryGraph := snd y\<rparr>"
      by blast
    have "snd x = deliveryGraph s" using x by (rule findShortestPath_snd)
    moreover have "snd y = snd x" using y by (rule findShortestPath_snd)
    ultimately show ?thesis using s' by simp
  qed
qed

section \<open>The operations keep the graph valid and undirected\<close>

lemma set_map_assign:
  "set (map_assign k v m) \<subseteq> insert (k, v) (set m)"
  by (induction k v m rule: map_assign.induct) auto

lemma keys_map_assign: "fst ` set (map_assign k v m) = insert k (fst ` set m)"
  by (induction k v m rule: map_assign.induct) auto

lemma sorted_keys_map_assign:
  "sorted_keys m \<Longrightarrow> sorted_keys (map_assign k v m)"
  unfolding sorted_keys_def
proof (induction m)
  case Nil
  then show ?case by simp
next
  case (Cons e m)
  obtain a b where e: "e = (a, b)" by (cases e)
  from Cons.prems have tl: "sorted_wrt (<) (map fst m)" and hd: "\<forall>x \<in> set m. a < fst x"
    by (auto simp: e)
  have "\<forall>x \<in> fst ` set (map_assign k v m). x = k \<or> x \<in> fst ` set m"
    by (simp add: keys_map_assign)
  then have "\<not> k = a \<Longrightarrow> \<not> k < a \<Longrightarrow> \<forall>x \<in> set (map_assign k v m). a < fst x"
    using hd by fastforce
  then show ?case using Cons.IH [OF tl] Cons.prems hd
    by (auto simp: e)
qed

lemma sorted_keys_distinct: "sorted_keys m \<Longrightarrow> distinct (map fst m)"
  by (simp add: sorted_keys_def strict_sorted_iff)

lemma map_count_map_assign: "map_count (map_assign k v m) x = (x = k \<or> map_count m x)"
  by (simp add: map_count_def map_of_map_assign)

lemma adjacency_map_assign:
  "adjacency (map_assign k v g) a = (if a = k then v else adjacency g a)"
  by (simp add: adjacency_def map_of_map_assign)

lemma weight_of_set_edge:
  "map_count g a \<Longrightarrow>
   weight_of (set_edge g a b w) x y = (if x = a \<and> y = b then Some w else weight_of g x y)"
  by (auto simp: set_edge_def map_index_present weight_of_def adjacency_map_assign
      map_of_map_assign adjacency_def map_count_def)

lemma map_count_set_edge:
  "map_count g a \<Longrightarrow> map_count (set_edge g a b w) x = map_count g x"
  by (auto simp: set_edge_def map_index_present map_count_map_assign)

lemma valid_graph_map_assign:
  assumes "valid_graph g" and "sorted_keys adj" and "list_all (\<lambda>r. map_count g (fst r)) adj"
  shows "valid_graph (map_assign k adj g)"
proof -
  have 1: "sorted_keys (map_assign k adj g)"
    using assms(1) by (simp add: valid_graph_def sorted_keys_map_assign)
  have mem: "\<And>e. e \<in> set (map_assign k adj g) \<Longrightarrow> e = (k, adj) \<or> e \<in> set g"
    using set_map_assign [of k adj g] by auto
  have 2: "list_all (\<lambda>e. sorted_keys (snd e)) (map_assign k adj g)"
    using assms(1,2) mem by (fastforce simp: valid_graph_def list_all_iff)
  have 3: "list_all (\<lambda>e. list_all (\<lambda>r. map_count (map_assign k adj g) (fst r)) (snd e))
             (map_assign k adj g)"
    using assms(1,3) mem
    by (fastforce simp: valid_graph_def list_all_iff map_count_map_assign)
  from 1 2 3 show ?thesis by (simp add: valid_graph_def)
qed

lemma valid_graph_adjacency:
  assumes "valid_graph g"
  shows "sorted_keys (adjacency g a)" and "list_all (\<lambda>r. map_count g (fst r)) (adjacency g a)"
proof -
  show "sorted_keys (adjacency g a)"
  proof (cases "map_of g a")
    case None
    then show ?thesis by (simp add: adjacency_def sorted_keys_def)
  next
    case (Some adj)
    then have "(a, adj) \<in> set g" by (rule map_of_SomeD)
    with assms Some show ?thesis by (auto simp: valid_graph_def list_all_iff adjacency_def)
  qed
  show "list_all (\<lambda>r. map_count g (fst r)) (adjacency g a)"
  proof (cases "map_of g a")
    case None
    then show ?thesis by (simp add: adjacency_def)
  next
    case (Some adj)
    then have "(a, adj) \<in> set g" by (rule map_of_SomeD)
    with assms Some show ?thesis by (auto simp: valid_graph_def list_all_iff adjacency_def)
  qed
qed

lemma valid_graph_set_edge:
  assumes "valid_graph g" and "map_count g a" and "map_count g b"
  shows "valid_graph (set_edge g a b w)"
proof -
  have eq: "set_edge g a b w = map_assign a (map_assign b w (adjacency g a)) g"
    using assms(2) by (auto simp: set_edge_def map_index_present adjacency_def map_count_def)
  have "sorted_keys (map_assign b w (adjacency g a))"
    using valid_graph_adjacency(1) [OF assms(1)] by (rule sorted_keys_map_assign)
  moreover have "list_all (\<lambda>r. map_count g (fst r)) (map_assign b w (adjacency g a))"
    using valid_graph_adjacency(2) [OF assms(1), of a] assms(3)
      set_map_assign [of b w "adjacency g a"]
    by (fastforce simp: list_all_iff)
  ultimately show ?thesis unfolding eq using assms(1) by (intro valid_graph_map_assign)
qed

lemma valid_graph_addLocation:
  "valid_graph (deliveryGraph s) \<Longrightarrow> valid_graph (deliveryGraph (snd (addLocation s name)))"
  by (simp add: addLocation_def valid_graph_map_assign sorted_keys_def)

lemma valid_graph_addRoute:
  "valid_graph (deliveryGraph s) \<Longrightarrow> valid_graph (deliveryGraph (snd (addRoute s a b w)))"
  by (simp add: addRoute_def valid_graph_set_edge map_count_set_edge)

lemma undirected_addLocation:
  assumes "undirected (deliveryGraph s)"
  shows "undirected (deliveryGraph (snd (addLocation s name)))"
proof (cases "map_count (deliveryGraph s) name")
  case True
  with assms show ?thesis by (simp add: addLocation_def)
next
  case False
  then have "adjacency (deliveryGraph s) name = []"
    by (simp add: adjacency_def map_count_def)
  then have "\<And>a b. weight_of (map_assign name [] (deliveryGraph s)) a b
                 = weight_of (deliveryGraph s) a b"
    by (simp add: weight_of_def adjacency_map_assign)
  with assms False show ?thesis by (simp add: addLocation_def undirected_def)
qed

lemma undirected_addRoute:
  assumes "undirected (deliveryGraph s)"
  shows "undirected (deliveryGraph (snd (addRoute s a b w)))"
proof (cases "map_count (deliveryGraph s) a \<and> map_count (deliveryGraph s) b")
  case False
  with assms show ?thesis by (auto simp: addRoute_def)
next
  case True
  define g where "g = deliveryGraph s"
  have a: "map_count g a" and b: "map_count g b" using True by (simp_all add: g_def)
  have b1: "map_count (set_edge g a b w) b"
    using b by (simp only: map_count_set_edge [OF a])
  have weq: "weight_of (set_edge (set_edge g a b w) b a w) x y
      = (if x = b \<and> y = a then Some w
         else if x = a \<and> y = b then Some w else weight_of g x y)" for x y
    by (simp only: weight_of_set_edge [OF b1] weight_of_set_edge [OF a])
  have g': "deliveryGraph (snd (addRoute s a b w)) = set_edge (set_edge g a b w) b a w"
    using True by (simp add: addRoute_def g_def)
  have sym: "weight_of g x y = weight_of g y x" for x y
    using assms by (simp add: undirected_def g_def)
  show ?thesis
    unfolding undirected_def g'
  proof (intro allI)
    fix x y
    show "weight_of (set_edge (set_edge g a b w) b a w) x y
            = weight_of (set_edge (set_edge g a b w) b a w) y x"
    proof (cases "(x = b \<and> y = a) \<or> (x = a \<and> y = b)")
      case True
      then show ?thesis by (auto simp only: weq if_True if_False simp_thms if_cancel)
    next
      case False
      then have n: "\<not> (x = b \<and> y = a)" "\<not> (x = a \<and> y = b)"
        "\<not> (y = b \<and> x = a)" "\<not> (y = a \<and> x = b)"
        by blast+
      have "weight_of (set_edge (set_edge g a b w) b a w) x y = weight_of g x y"
        by (simp only: weq if_not_P [OF n(1)] if_not_P [OF n(2)])
      moreover
      have "weight_of (set_edge (set_edge g a b w) b a w) y x = weight_of g y x"
        by (simp only: weq if_not_P [OF n(3)] if_not_P [OF n(4)])
      ultimately show ?thesis by (simp only: sym [of x y])
    qed
  qed
qed

text \<open>
  Only \<open>addLocation\<close> and \<open>addRoute\<close> write to the graph.
\<close>

lemma execute_graph:
  assumes "execute s c = Some (out, s')"
  shows "deliveryGraph s' = deliveryGraph s
         \<or> (\<exists>name. s' = snd (addLocation s name))
         \<or> (\<exists>a b w. s' = snd (addRoute s a b w))"
proof (cases c)
  case (AddLocation name)
  with assms have "s' = snd (addLocation s name)" by auto
  then show ?thesis by blast
next
  case (AddRoute a b w)
  with assms have "s' = snd (addRoute s a b w)" by auto
  then show ?thesis by blast
next
  case (PlaceOrder r d p)
  with assms show ?thesis by (auto simp: placeOrder_def Let_def split: if_splits)
next
  case ProcessNextOrder
  with assms show ?thesis by (auto simp: processNextOrder_def split: list.splits)
next
  case TrackLastDelivery
  with assms show ?thesis by (auto simp: trackLastDelivery_def split: list.splits)
next
  case ListPendingOrders
  with assms show ?thesis by (auto simp: listPendingOrders_def split: if_splits)
next
  case (OptimizeDeliveryRoute orderId)
  with assms have "s' = s" by (auto dest: optimizeDeliveryRoute_frame)
  then show ?thesis by simp
next
  case RevertLastDelivery
  with assms show ?thesis by (auto simp: revertLastDelivery_def split: list.splits)
next
  case ViewSystemStatus
  with assms show ?thesis by (auto simp: systemStatus_def)
qed

lemma execute_valid_graph:
  "execute s c = Some (out, s') \<Longrightarrow> valid_graph (deliveryGraph s)
     \<Longrightarrow> valid_graph (deliveryGraph s')"
  using execute_graph [of s c out s'] valid_graph_addLocation [of s] valid_graph_addRoute [of s]
  by auto

lemma execute_undirected:
  "execute s c = Some (out, s') \<Longrightarrow> undirected (deliveryGraph s)
     \<Longrightarrow> undirected (deliveryGraph s')"
  using execute_graph [of s c out s'] undirected_addLocation [of s] undirected_addRoute [of s]
  by auto

lemma run_Cons_Some:
  "run s (c # cs) = Some (outs, s') \<Longrightarrow>
     \<exists>out s1 outs'. execute s c = Some (out, s1) \<and> run s1 cs = Some (outs', s')
        \<and> outs = out # outs'"
  by (auto split: option.splits)

lemma run_valid_graph:
  "run s cmds = Some (outs, s') \<Longrightarrow> valid_graph (deliveryGraph s)
     \<Longrightarrow> valid_graph (deliveryGraph s')"
proof (induction cmds arbitrary: s outs)
  case Nil
  then show ?case by simp
next
  case (Cons c cs)
  from run_Cons_Some [OF Cons.prems(1)] obtain out s1 outs' where
    "execute s c = Some (out, s1)" "run s1 cs = Some (outs', s')" by blast
  with Cons.IH Cons.prems(2) execute_valid_graph show ?case by blast
qed

lemma run_undirected:
  "run s cmds = Some (outs, s') \<Longrightarrow> undirected (deliveryGraph s)
     \<Longrightarrow> undirected (deliveryGraph s')"
proof (induction cmds arbitrary: s outs)
  case Nil
  then show ?case by simp
next
  case (Cons c cs)
  from run_Cons_Some [OF Cons.prems(1)] obtain out s1 outs' where
    "execute s c = Some (out, s1)" "run s1 cs = Some (outs', s')" by blast
  with Cons.IH Cons.prems(2) execute_undirected show ?case by blast
qed

lemma valid_graph_initial: "valid_graph (deliveryGraph initial)"
  by (simp add: initial_def valid_graph_def sorted_keys_def)

lemma undirected_initial: "undirected (deliveryGraph initial)"
  by (simp add: initial_def undirected_def weight_of_def adjacency_def)

lemma weight_of_iff:
  "valid_graph g \<Longrightarrow> (weight_of g a b = Some w) = ((b, w) \<in> set (adjacency g a))"
  using valid_graph_adjacency(1) [of g a]
  by (simp add: weight_of_def sorted_keys_distinct)

lemma simple_undirectedI:
  assumes v: "valid_graph g" and u: "undirected g"
  shows "simple_undirected g"
proof -
  have 1: "distinct (map fst g)"
    using v by (simp add: valid_graph_def sorted_keys_distinct)
  have 2: "((b, w) \<in> set (adjacency g a)) = ((a, w) \<in> set (adjacency g b))" for a b w
    using u weight_of_iff [OF v, of a b w] weight_of_iff [OF v, of b a w]
    by (simp add: undirected_def)
  have 3: "((b, w) \<in> set (adjacency g a) \<and> (b, w') \<in> set (adjacency g a)) =
            ((b, w) \<in> set (adjacency g a) \<and> w' = w)" for a b w w'
    using weight_of_iff [OF v, of a b w] weight_of_iff [OF v, of a b w'] by auto
  from 1 2 3 show ?thesis unfolding simple_undirected_def by blast
qed

section \<open>Where the weights come from\<close>

lemma all_weights_map_assign:
  "all_weights (map_assign k adj g) \<subseteq> snd ` set adj \<union> all_weights g"
  using set_map_assign [of k adj g] by (fastforce simp: all_weights_def)

lemma all_weights_adjacency: "snd ` set (adjacency g a) \<subseteq> all_weights g"
proof (cases "map_of g a")
  case None
  then show ?thesis by (simp add: adjacency_def)
next
  case (Some adj)
  then have "(a, adj) \<in> set g" by (rule map_of_SomeD)
  with Some show ?thesis by (force simp: adjacency_def all_weights_def)
qed

lemma all_weights_set_edge:
  assumes "map_count g a"
  shows "all_weights (set_edge g a b w) \<subseteq> insert w (all_weights g)"
proof -
  have eq: "set_edge g a b w = map_assign a (map_assign b w (adjacency g a)) g"
    using assms by (auto simp: set_edge_def map_index_present adjacency_def map_count_def)
  have "snd ` set (map_assign b w (adjacency g a)) \<subseteq> insert w (snd ` set (adjacency g a))"
    using set_map_assign [of b w "adjacency g a"] by force
  with all_weights_adjacency [of g a]
  have "snd ` set (map_assign b w (adjacency g a)) \<subseteq> insert w (all_weights g)" by blast
  with all_weights_map_assign [of a "map_assign b w (adjacency g a)" g]
  show ?thesis unfolding eq by blast
qed

lemma all_weights_addLocation:
  "all_weights (deliveryGraph (snd (addLocation s name))) \<subseteq> all_weights (deliveryGraph s)"
  using all_weights_map_assign [of name "[]" "deliveryGraph s"]
  by (simp add: addLocation_def)

lemma all_weights_addRoute:
  "all_weights (deliveryGraph (snd (addRoute s a b w))) \<subseteq> insert w (all_weights (deliveryGraph s))"
proof (cases "map_count (deliveryGraph s) a \<and> map_count (deliveryGraph s) b")
  case False
  then show ?thesis by (auto simp: addRoute_def)
next
  case True
  then have b1: "map_count (set_edge (deliveryGraph s) a b w) b"
    by (simp add: map_count_set_edge)
  have "all_weights (set_edge (set_edge (deliveryGraph s) a b w) b a w)
          \<subseteq> insert w (all_weights (set_edge (deliveryGraph s) a b w))"
    using b1 by (rule all_weights_set_edge)
  moreover have "all_weights (set_edge (deliveryGraph s) a b w)
          \<subseteq> insert w (all_weights (deliveryGraph s))"
    using True by (intro all_weights_set_edge) simp
  ultimately show ?thesis using True by (auto simp: addRoute_def)
qed

lemma execute_weights:
  assumes "execute s c = Some (out, s')"
  shows "all_weights (deliveryGraph s') \<subseteq> set (route_distance c) \<union> all_weights (deliveryGraph s)"
proof (cases c)
  case (AddLocation name)
  with assms have "s' = snd (addLocation s name)" by auto
  with all_weights_addLocation [of s name] show ?thesis by blast
next
  case (AddRoute a b w)
  with assms have "s' = snd (addRoute s a b w)" by auto
  with all_weights_addRoute [of s a b w] AddRoute show ?thesis by auto
next
  case (PlaceOrder r d p)
  with assms show ?thesis by (auto simp: placeOrder_def Let_def split: if_splits)
next
  case ProcessNextOrder
  with assms show ?thesis by (auto simp: processNextOrder_def split: list.splits)
next
  case TrackLastDelivery
  with assms show ?thesis by (auto simp: trackLastDelivery_def split: list.splits)
next
  case ListPendingOrders
  with assms show ?thesis by (auto simp: listPendingOrders_def split: if_splits)
next
  case (OptimizeDeliveryRoute orderId)
  with assms have "s' = s" by (auto dest: optimizeDeliveryRoute_frame)
  then show ?thesis by simp
next
  case RevertLastDelivery
  with assms show ?thesis by (auto simp: revertLastDelivery_def split: list.splits)
next
  case ViewSystemStatus
  with assms show ?thesis by (auto simp: systemStatus_def)
qed

lemma run_weights:
  "run s cmds = Some (outs, s') \<Longrightarrow>
     all_weights (deliveryGraph s')
       \<subseteq> set (concat (map route_distance cmds)) \<union> all_weights (deliveryGraph s)"
proof (induction cmds arbitrary: s outs)
  case Nil
  then show ?case by simp
next
  case (Cons c cs)
  from run_Cons_Some [OF Cons.prems(1)] obtain out s1 outs' where
    e: "execute s c = Some (out, s1)" and r: "run s1 cs = Some (outs', s')" by blast
  from Cons.IH [OF r] execute_weights [OF e] show ?case by auto
qed

section \<open>The ids that are placed\<close>

lemma add32_exact:
  "- 2147483648 \<le> a + b \<Longrightarrow> a + b \<le> 2147483647 \<Longrightarrow> add32 a b = a + b"
  by (simp add: add32_def wrap32_def)

lemma optimizeDeliveryRoute_outcome:
  assumes run: "optimizeDeliveryRoute s orderId = Some (out, s')"
  shows "placed_ids (out # outs) = placed_ids outs"
proof (cases "map_count (allOrders s) orderId")
  case False
  with run show ?thesis by (auto simp add: optimizeDeliveryRoute_def)
next
  case True
  define ord where "ord = the (map_of (allOrders s) orderId)"
  have idx: "map_index (allOrders s) orderId default_order = (ord, allOrders s)"
    unfolding ord_def using True by (rule map_index_present)
  show ?thesis
  proof (cases "map_count (deliveryGraph s) ''Depot''")
    case False
    with run True show ?thesis
      by (auto simp add: optimizeDeliveryRoute_def idx Let_def)
  next
    case depot: True
    from run True depot
    have "\<exists>r. out = RouteReport r"
      by (auto simp add: optimizeDeliveryRoute_def idx Let_def case_prod_beta
          split: option.splits)
    then show ?thesis by auto
  qed
qed

lemma run_snoc:
  "run s (cs @ [c]) =
     (case run s cs of
        None \<Rightarrow> None
      | Some (outs, s1) \<Rightarrow>
          (case execute s1 c of
             None \<Rightarrow> None
           | Some (out, s') \<Rightarrow> Some (outs @ [out], s')))"
  by (induction cs arbitrary: s) (auto split: option.splits)

lemma placed_ids_append: "placed_ids (xs @ ys) = placed_ids xs @ placed_ids ys"
  by (induction xs rule: placed_ids.induct) simp_all

lemma map_assign_append:
  "(\<And>a. a \<in> fst ` set m \<Longrightarrow> a < k) \<Longrightarrow> map_assign k v m = m @ [(k, v)]"
  by (induction k v m rule: map_assign.induct) force+

lemma wrap32_exact: "- 2147483648 \<le> x \<Longrightarrow> x \<le> 2147483647 \<Longrightarrow> wrap32 x = x"
  by (simp add: wrap32_def)

lemma wrap32_add: "wrap32 (wrap32 x + y) = wrap32 (x + y)"
proof -
  have "(wrap32 x + y + 2147483648) mod 4294967296
          = ((x + 2147483648) mod 4294967296 + y) mod 4294967296"
    by (simp add: wrap32_def)
  also have "\<dots> = (x + 2147483648 + y) mod 4294967296"
    by (rule mod_add_left_eq)
  also have "x + 2147483648 + y = x + y + 2147483648"
    by simp
  finally have "(wrap32 x + y + 2147483648) mod 4294967296 = (x + y + 2147483648) mod 4294967296" .
  then show ?thesis by (simp only: wrap32_def)
qed

lemma placed_ids_map:
  "placed_ids (map (\<lambda>k. OrderPlaced (f k) a b) xs) = map f xs"
  by (induction xs) simp_all

lemma run_replicate_placeOrder:
  assumes "map_count (deliveryGraph s) a" and "wrap32 (nextOrderId s) = nextOrderId s"
  shows "\<exists>s'. run s (replicate n (PlaceOrder a a p))
           = Some (map (\<lambda>k. OrderPlaced (wrap32 (nextOrderId s + int k)) a a) [0..<n], s')"
  using assms
proof (induction n arbitrary: s)
  case 0
  then show ?case by simp
next
  case (Suc n)
  define s1 where "s1 = snd (placeOrder s a a p)"
  have ex: "execute s (PlaceOrder a a p) = Some (OrderPlaced (nextOrderId s) a a, s1)"
    and g1: "deliveryGraph s1 = deliveryGraph s"
    and n1: "nextOrderId s1 = wrap32 (nextOrderId s + 1)"
    using Suc.prems by (simp_all add: s1_def placeOrder_def Let_def add32_def)
  have "wrap32 (nextOrderId s1) = nextOrderId s1"
    unfolding n1 using wrap32_add [of "nextOrderId s + 1" 0] by simp
  with Suc.IH [of s1] Suc.prems g1 obtain s' where
    r: "run s1 (replicate n (PlaceOrder a a p))
          = Some (map (\<lambda>k. OrderPlaced (wrap32 (nextOrderId s1 + int k)) a a) [0..<n], s')"
    by auto
  have w: "wrap32 (nextOrderId s1 + int k) = wrap32 (nextOrderId s + int (Suc k))" for k
    unfolding n1 wrap32_add by (simp add: algebra_simps)
  have eq: "map (\<lambda>k. OrderPlaced (wrap32 (nextOrderId s + int k)) a a) [0..<Suc n]
          = OrderPlaced (wrap32 (nextOrderId s + int 0)) a a
            # map (\<lambda>k. OrderPlaced (wrap32 (nextOrderId s + int (Suc k))) a a) [0..<n]"
    by (rule map_upt_Suc)
  have rn: "run s (PlaceOrder a a p # replicate n (PlaceOrder a a p))
          = Some (OrderPlaced (nextOrderId s) a a
                  # map (\<lambda>k. OrderPlaced (wrap32 (nextOrderId s + int (Suc k))) a a) [0..<n], s')"
    using ex r by (simp add: w)
  have z: "wrap32 (nextOrderId s + int 0) = nextOrderId s"
    using Suc.prems(2) by simp
  have "run s (replicate (Suc n) (PlaceOrder a a p))
          = Some (map (\<lambda>k. OrderPlaced (wrap32 (nextOrderId s + int k)) a a) [0..<Suc n], s')"
    unfolding eq replicate_Suc z by (rule rn)
  then show ?case ..
qed

lemma many_orders_ids:
  "map_option (\<lambda>(outs, s). placed_ids outs) (run initial (many_orders n))
     = Some (map (\<lambda>k. wrap32 (1001 + int k)) [0..<n])"
proof -
  define s0 :: "int FoodDeliverySystem" where "s0 = snd (addLocation initial ''Depot'')"
  have ex: "execute initial (AddLocation ''Depot'') = Some (LocationAdded ''Depot'', s0)"
    and depot: "map_count (deliveryGraph s0) ''Depot''"
    and n0: "nextOrderId s0 = 1001"
    by (simp_all add: s0_def addLocation_def initial_def map_count_def)
  have "wrap32 (nextOrderId s0) = nextOrderId s0"
    by (simp add: n0 wrap32_def)
  from run_replicate_placeOrder [OF depot this, of n 0] obtain s' where
    "run s0 (replicate n (PlaceOrder ''Depot'' ''Depot'' 0))
       = Some (map (\<lambda>k. OrderPlaced (wrap32 (1001 + int k)) ''Depot'' ''Depot'') [0..<n], s')"
    unfolding n0 by blast
  with ex show ?thesis
    by (simp add: many_orders_def placed_ids_map)
qed

lemma many_orders_last_two:
  "map_option (\<lambda>(outs, s). (length (placed_ids outs), drop m (placed_ids outs)))
     (run initial (many_orders (Suc (Suc m))))
     = Some (Suc (Suc m), [wrap32 (1001 + int m), wrap32 (1002 + int m)])"
proof -
  from many_orders_ids [of "Suc (Suc m)"] obtain outs s where
    r: "run initial (many_orders (Suc (Suc m))) = Some (outs, s)"
    and ids: "placed_ids outs = map (\<lambda>k. wrap32 (1001 + int k)) [0..<Suc (Suc m)]"
    by (cases "run initial (many_orders (Suc (Suc m)))") auto
  have "drop m (placed_ids outs) = [wrap32 (1001 + int m), wrap32 (1002 + int m)]"
    and "length (placed_ids outs) = Suc (Suc m)"
    unfolding ids by (simp_all add: algebra_simps)
  with r show ?thesis by simp
qed

lemma orders_issued_same:
  "orders_issued n s \<Longrightarrow> allOrders s' = allOrders s \<Longrightarrow> incomingOrders s' = incomingOrders s
   \<Longrightarrow> completedOrders s' = completedOrders s \<Longrightarrow> nextOrderId s' = nextOrderId s
   \<Longrightarrow> orders_issued n s'"
  by (simp add: orders_issued_def)

lemma orders_issued_processNextOrder:
  assumes "orders_issued n s"
  shows "orders_issued n (snd (processNextOrder s))"
proof (cases "incomingOrders s")
  case Nil
  with assms show ?thesis by (simp add: processNextOrder_def)
next
  case (Cons x rest)
  with assms show ?thesis
    unfolding orders_issued_def processNextOrder_def by auto
qed

lemma orders_issued_revertLastDelivery:
  assumes "orders_issued n s"
  shows "orders_issued n (snd (revertLastDelivery s))"
proof (cases "completedOrders s")
  case Nil
  with assms show ?thesis by (simp add: revertLastDelivery_def)
next
  case (Cons x rest)
  with assms show ?thesis
    unfolding orders_issued_def revertLastDelivery_def by auto
qed

lemma execute_orders_issued:
  assumes ex: "execute s c = Some (out, s')" and inv: "orders_issued n s"
  shows "(placed_ids [out] = [] \<and> orders_issued n s')
         \<or> (placed_ids [out] = [nextOrderId s]
            \<and> (n < 2147482647 \<longrightarrow> orders_issued (Suc n) s'))"
proof (cases c)
  case (AddLocation name)
  with ex have "placed_ids [out] = []" "allOrders s' = allOrders s"
    "incomingOrders s' = incomingOrders s" "completedOrders s' = completedOrders s"
    "nextOrderId s' = nextOrderId s"
    by (auto simp: addLocation_def split: if_splits)
  with inv show ?thesis by (simp add: orders_issued_same)
next
  case (AddRoute a b w)
  with ex have "placed_ids [out] = []" "allOrders s' = allOrders s"
    "incomingOrders s' = incomingOrders s" "completedOrders s' = completedOrders s"
    "nextOrderId s' = nextOrderId s"
    by (auto simp: addRoute_def split: if_splits)
  with inv show ?thesis by (simp add: orders_issued_same)
next
  case (PlaceOrder r d p)
  show ?thesis
  proof (cases "map_count (deliveryGraph s) r \<and> map_count (deliveryGraph s) d")
    case False
    with ex inv PlaceOrder show ?thesis by (auto simp: placeOrder_def)
  next
    case True
    define new where "new = \<lparr>id' = nextOrderId s, restaurant = r, destination = d, price = p\<rparr>"
    from ex PlaceOrder True
    have out: "out = OrderPlaced (nextOrderId s) r d"
      and s': "s' = s\<lparr>nextOrderId := add32 (nextOrderId s) 1,
                       incomingOrders := incomingOrders s @ [new],
                       allOrders := map_assign (nextOrderId s) new (allOrders s)\<rparr>"
      by (auto simp: placeOrder_def Let_def new_def)
    have "orders_issued (Suc n) s'" if small: "n < 2147482647"
    proof -
      from inv have keys: "map fst (allOrders s) = map (\<lambda>k. 1001 + int k) [0..<n]"
        and own: "list_all (\<lambda>(k, ord). id' ord = k) (allOrders s)"
        and dist: "distinct (map id' (incomingOrders s @ completedOrders s))"
        and held: "set (incomingOrders s @ completedOrders s) = set (map snd (allOrders s))"
        and cnt: "nextOrderId s = wrap32 (1001 + int n)"
        by (simp_all add: orders_issued_def)
      have c: "nextOrderId s = 1001 + int n"
        unfolding cnt using small by (intro wrap32_exact) simp_all
      have below: "a < nextOrderId s" if "a \<in> fst ` set (allOrders s)" for a
      proof -
        from that have "a \<in> set (map fst (allOrders s))" by simp
        then show ?thesis unfolding keys c by auto
      qed
      then have app: "map_assign (nextOrderId s) new (allOrders s)
                        = allOrders s @ [(nextOrderId s, new)]"
        by (rule map_assign_append)
      have fresh: "id' ord < nextOrderId s"
        if "ord \<in> set (incomingOrders s @ completedOrders s)" for ord
      proof -
        from that held obtain k where k: "(k, ord) \<in> set (allOrders s)" by force
        with own have "id' ord = k" by (auto simp: list_all_iff)
        moreover from k have "k \<in> fst ` set (allOrders s)" by force
        ultimately show ?thesis using below by simp
      qed
      have 1: "map fst (allOrders s') = map (\<lambda>k. 1001 + int k) [0..<Suc n]"
        unfolding s' by (simp add: app keys) (simp add: c)
      have 2: "list_all (\<lambda>(k, ord). id' ord = k) (allOrders s')"
        unfolding s' using own by (simp add: app) (simp add: new_def)
      have "nextOrderId s \<notin> id' ` set (incomingOrders s @ completedOrders s)"
        using fresh by force
      then have 3: "distinct (map id' (incomingOrders s' @ completedOrders s'))"
        unfolding s' using dist by (auto simp: new_def)
      have 4: "set (incomingOrders s' @ completedOrders s') = set (map snd (allOrders s'))"
        unfolding s' using held by (auto simp: app)
      have 5: "nextOrderId s' = wrap32 (1001 + int (Suc n))"
        unfolding s' by (simp add: c add32_def algebra_simps)
      from 1 2 3 4 5 show ?thesis unfolding orders_issued_def by blast
    qed
    then show ?thesis using out by simp
  qed
next
  case ProcessNextOrder
  with ex have "placed_ids [out] = []" "s' = snd (processNextOrder s)"
    by (auto simp: processNextOrder_def split: list.splits)
  with inv show ?thesis by (simp add: orders_issued_processNextOrder)
next
  case TrackLastDelivery
  with ex have "placed_ids [out] = []" "s' = s"
    by (auto simp: trackLastDelivery_def split: list.splits)
  with inv show ?thesis by simp
next
  case ListPendingOrders
  with ex have "placed_ids [out] = []" "s' = s"
    by (auto simp: listPendingOrders_def split: if_splits)
  with inv show ?thesis by simp
next
  case (OptimizeDeliveryRoute orderId)
  with ex have run: "optimizeDeliveryRoute s orderId = Some (out, s')" by simp
  then have "s' = s" by (rule optimizeDeliveryRoute_frame)
  moreover from optimizeDeliveryRoute_outcome [OF run, of "[]"]
  have "placed_ids [out] = []" by simp
  ultimately show ?thesis using inv by simp
next
  case RevertLastDelivery
  with ex have "placed_ids [out] = []" "s' = snd (revertLastDelivery s)"
    by (auto simp: revertLastDelivery_def split: list.splits)
  with inv show ?thesis by (simp add: orders_issued_revertLastDelivery)
next
  case ViewSystemStatus
  with ex have "placed_ids [out] = []" "s' = s"
    by (auto simp: systemStatus_def)
  with inv show ?thesis by simp
qed

lemma run_orders_issued:
  "run initial cmds = Some (outs, s) \<Longrightarrow> length (placed_ids outs) \<le> 2147482647
   \<Longrightarrow> placed_ids outs = map (\<lambda>k. 1001 + int k) [0..<length (placed_ids outs)]
       \<and> orders_issued (length (placed_ids outs)) s"
proof (induction cmds arbitrary: outs s rule: rev_induct)
  case Nil
  then show ?case by (auto simp add: orders_issued_def initial_def wrap32_def)
next
  case (snoc c cs)
  from snoc.prems(1) obtain outs1 s1 out where
    r: "run initial cs = Some (outs1, s1)" and e: "execute s1 c = Some (out, s)"
    and outs: "outs = outs1 @ [out]"
    by (auto simp: run_snoc split: option.splits)
  have ids: "placed_ids outs = placed_ids outs1 @ placed_ids [out]"
    unfolding outs by (rule placed_ids_append)
  with snoc.prems(2) have "length (placed_ids outs1) \<le> 2147482647"
    by simp
  from snoc.IH [OF r this] obtain n where n: "n = length (placed_ids outs1)"
    and ih: "placed_ids outs1 = map (\<lambda>k. 1001 + int k) [0..<n]"
    and inv: "orders_issued n s1"
    by blast
  from execute_orders_issued [OF e inv]
  consider
    (same) "placed_ids [out] = []" "orders_issued n s"
  | (placed) "placed_ids [out] = [nextOrderId s1]"
      "n < 2147482647 \<longrightarrow> orders_issued (Suc n) s"
    by blast
  then show ?case
  proof cases
    case same
    from ids same(1) have eq: "placed_ids outs = placed_ids outs1" by simp
    have len: "length (placed_ids outs) = n"
      unfolding eq by (rule n [symmetric])
    from eq ih have "placed_ids outs = map (\<lambda>k. 1001 + int k) [0..<n]" by simp
    from this same(2) show ?thesis unfolding len by (rule conjI)
  next
    case placed
    from ids placed(1) have len: "length (placed_ids outs) = Suc n"
      by (simp add: n)
    with snoc.prems(2) have small: "n < 2147482647" by simp
    from inv have "nextOrderId s1 = wrap32 (1001 + int n)"
      by (simp add: orders_issued_def)
    also have "\<dots> = 1001 + int n"
      using small by (intro wrap32_exact) simp_all
    finally have c: "nextOrderId s1 = 1001 + int n" .
    from ids placed(1) have "placed_ids outs = placed_ids outs1 @ [nextOrderId s1]" by simp
    then have "placed_ids outs = map (\<lambda>k. 1001 + int k) [0..<n] @ [1001 + int n]"
      unfolding ih c .
    then have "placed_ids outs = map (\<lambda>k. 1001 + int k) [0..<Suc n]" by simp
    moreover from placed(2) small have "orders_issued (Suc n) s" by blast
    ultimately show ?thesis unfolding len by (rule conjI)
  qed
qed

section \<open>The invariant of the search\<close>

lemma all_weights_finite: "finite (all_weights g)"
  by (simp add: all_weights_def)

lemma max_weight_nonneg: "0 \<le> max_weight g"
  by (simp add: max_weight_def all_weights_finite)

lemma max_weight_ge: "w \<in> all_weights g \<Longrightarrow> w \<le> max_weight g"
  by (simp add: max_weight_def all_weights_finite)

lemma bounded_weightsD:
  assumes "bounded_weights g" and "w \<in> all_weights g"
  shows "0 \<le> w" and "w * int (length g) < INT_MAX"
proof -
  from assms(2) obtain e r where "e \<in> set g" "r \<in> set (snd e)" "w = snd r"
    by (auto simp: all_weights_def)
  with assms(1) show "0 \<le> w" and "w * int (length g) < INT_MAX"
    unfolding bounded_weights_def list_all_iff by blast+
qed

lemma max_weight_bound:
  assumes "bounded_weights g"
  shows "max_weight g * int (length g) < INT_MAX"
proof -
  have "max_weight g \<in> insert 0 (all_weights g)"
    unfolding max_weight_def by (rule Max_in) (simp_all add: all_weights_finite)
  then show ?thesis
  proof
    assume "max_weight g = 0"
    then show ?thesis by (simp add: INT_MAX_def)
  next
    assume "max_weight g \<in> all_weights g"
    with assms show ?thesis by (rule bounded_weightsD(2))
  qed
qed

lemma weight_of_in_all_weights: "weight_of g a b = Some w \<Longrightarrow> w \<in> all_weights g"
proof -
  assume "weight_of g a b = Some w"
  then have "(b, w) \<in> set (adjacency g a)"
    by (auto simp: weight_of_def dest: map_of_SomeD)
  then have "w \<in> snd ` set (adjacency g a)" by force
  with all_weights_adjacency show ?thesis by blast
qed

lemma weight_of_closed:
  assumes "valid_graph g" and "weight_of g a b = Some w"
  shows "map_count g a" and "map_count g b"
proof -
  from assms(2) have mem: "(b, w) \<in> set (adjacency g a)"
    by (auto simp: weight_of_def dest: map_of_SomeD)
  then have "adjacency g a \<noteq> []" by auto
  then show "map_count g a"
    by (auto simp: adjacency_def map_count_def split: option.splits)
  from valid_graph_adjacency(2) [OF assms(1), of a] mem
  show "map_count g b" by (auto simp: list_all_iff)
qed

lemma improve_simps:
  "dval (improve st u v n) x = (if x = v then n else dval st x)"
  "visited (improve st u v n) = visited st"
  "pq (improve st u v n) = (n, v) # pq st"
  "predecessors (improve st u v n) x = (if x = v then Some u else predecessors st x)"
  "distances (improve st u v n) x = (if x = v then Some n else distances st x)"
  by (simp_all add: improve_def dval_def dist_read_def)

lemma relax_eq:
  assumes "dist_ok g start st" and "map_count g u" and "map_count g v"
  shows "relax u (v, w) st =
           (if dval st u \<noteq> INT_MAX \<and> add32 (dval st u) w < dval st v
            then improve st u v (add32 (dval st u) w) else st)"
proof -
  from assms have "distances st u \<noteq> None" "distances st v \<noteq> None"
    by (simp_all add: dist_ok_def)
  then have "dist_touch (distances st) u = distances st"
    "dist_touch (distances st) v = distances st"
    by (auto simp: dist_touch_def)
  then show ?thesis
    by (simp add: relax_def Let_def improve_def dval_def)
qed

lemma improve_dist_ok:
  assumes "dist_ok g start st" and "map_count g v" and "v \<noteq> start"
    and "0 \<le> n" and "n \<le> INT_MAX"
  shows "dist_ok g start (improve st u v n)"
  using assms unfolding dist_ok_def by (auto simp: improve_simps)

lemma improve_bound_ok:
  assumes "bound_ok g st" and "v \<notin> set (visited st)"
    and "n \<le> max_weight g * int (length (visited st))"
  shows "bound_ok g (improve st u v n)"
  using assms unfolding bound_ok_def by (auto simp: improve_simps)

lemma improve_visited_ok:
  assumes "visited_ok g st" and "v \<notin> set (visited st)" and "visited st \<noteq> []"
  shows "visited_ok g (improve st u v n)"
proof -
  have "hd (visited st) \<in> set (visited st)" using assms(3) by simp
  with assms(2) have "hd (visited st) \<noteq> v" by blast
  with assms(1,2) show ?thesis
    unfolding visited_ok_def by (auto simp: improve_simps)
qed

lemma improve_queue_ok:
  assumes "queue_ok g st" and "v \<notin> set (visited st)" and "map_count g v"
    and "n < dval st v" and "dval st v \<le> INT_MAX"
    and "\<forall>x \<in> set (visited st). dval st x \<le> n"
  shows "queue_ok g (improve st u v n)"
proof -
  have 1: "\<forall>e \<in> set (pq (improve st u v n)).
             map_count g (snd e) \<and> dval (improve st u v n) (snd e) \<le> fst e \<and> fst e < INT_MAX"
    using assms(1,3,4,5) unfolding queue_ok_def by (fastforce simp: improve_simps)
  have 2: "\<forall>x. map_count g x \<and> dval (improve st u v n) x < INT_MAX
                \<and> x \<notin> set (visited (improve st u v n))
             \<longrightarrow> (dval (improve st u v n) x, x) \<in> set (pq (improve st u v n))"
    using assms(1) unfolding queue_ok_def by (auto simp: improve_simps)
  have 3: "\<forall>x \<in> set (visited (improve st u v n)). \<forall>e \<in> set (pq (improve st u v n)).
             dval (improve st u v n) x \<le> fst e"
    using assms(1,2,6) unfolding queue_ok_def by (auto simp: improve_simps)
  from 1 2 3 show ?thesis unfolding queue_ok_def by blast
qed

lemma improve_pred_ok:
  assumes "pred_ok g start st" and "v \<notin> set (visited st)" and "u \<in> set (visited st)"
    and "v \<noteq> start" and "map_count g v" and "weight_of g u v = Some w"
    and "n = dval st u + w"
  shows "pred_ok g start (improve st u v n)"
proof -
  have uv: "u \<noteq> v" using assms(2,3) by blast
  have 1: "\<forall>x p. predecessors (improve st u v n) x = Some p \<longrightarrow>
          x \<noteq> start \<and> p \<in> set (visited (improve st u v n)) \<and> map_count g x
          \<and> (\<exists>w. weight_of g p x = Some w
                \<and> dval (improve st u v n) x = dval (improve st u v n) p + w)"
  proof (intro allI impI)
    fix x p
    assume p: "predecessors (improve st u v n) x = Some p"
    show "x \<noteq> start \<and> p \<in> set (visited (improve st u v n)) \<and> map_count g x
          \<and> (\<exists>w. weight_of g p x = Some w
                \<and> dval (improve st u v n) x = dval (improve st u v n) p + w)"
    proof (cases "x = v")
      case True
      with p have "p = u" by (simp add: improve_simps)
      with True assms uv show ?thesis by (simp add: improve_simps)
    next
      case False
      with p have old: "predecessors st x = Some p" by (simp add: improve_simps)
      with assms(1) have "x \<noteq> start \<and> p \<in> set (visited st) \<and> map_count g x
          \<and> (\<exists>w. weight_of g p x = Some w \<and> dval st x = dval st p + w)"
        unfolding pred_ok_def by blast
      moreover from this assms(2) have "p \<noteq> v" by blast
      ultimately show ?thesis using False by (simp add: improve_simps)
    qed
  qed
  have 2: "\<forall>x. map_count g x \<and> dval (improve st u v n) x < INT_MAX \<and> x \<noteq> start
             \<longrightarrow> predecessors (improve st u v n) x \<noteq> None"
    using assms(1) unfolding pred_ok_def by (auto simp: improve_simps)
  have 3: "\<forall>xs x ys p. visited (improve st u v n) = xs @ x # ys
              \<and> predecessors (improve st u v n) x = Some p \<longrightarrow> p \<in> set ys"
  proof (intro allI impI)
    fix xs x ys p
    assume a: "visited (improve st u v n) = xs @ x # ys
              \<and> predecessors (improve st u v n) x = Some p"
    then have "x \<in> set (visited st)" by (simp add: improve_simps)
    with assms(2) have "x \<noteq> v" by blast
    with a have "visited st = xs @ x # ys \<and> predecessors st x = Some p"
      by (simp add: improve_simps)
    with assms(1) show "p \<in> set ys" unfolding pred_ok_def by blast
  qed
  from 1 2 3 show ?thesis unfolding pred_ok_def by blast
qed

lemma map_count_iff: "map_count g v = (v \<in> fst ` set g)"
  by (simp add: map_count_def map_of_eq_None_iff)

lemma visited_length:
  assumes "visited_ok g st"
  shows "length (visited st) \<le> length g"
proof -
  from assms have d: "distinct (visited st)" and sub: "set (visited st) \<subseteq> fst ` set g"
    by (auto simp: visited_ok_def map_count_iff)
  have "length (visited st) = card (set (visited st))"
    using d by (simp add: distinct_card)
  also have "\<dots> \<le> card (fst ` set g)" using sub by (intro card_mono) simp_all
  also have "\<dots> \<le> length g"
    using card_image_le [of "set g" fst] card_length [of g] by simp
  finally show ?thesis .
qed

lemma relax_dinv:
  assumes vg: "valid_graph g" and bw: "bounded_weights g"
    and inv: "dinv g start ((v, w) # rest) st"
    and ne: "visited st \<noteq> []" and u: "u = hd (visited st)"
    and e: "weight_of g u v = Some w"
  shows "dinv g start rest (relax u (v, w) st)"
proof -
  from inv have d: "dist_ok g start st" and b: "bound_ok g st" and vo: "visited_ok g st"
    and q: "queue_ok g st" and p: "pred_ok g start st"
    and r: "relaxed_ok g ((v, w) # rest) st"
    by (simp_all add: dinv_def)
  have uV: "u \<in> set (visited st)" using ne u by simp
  have mu: "map_count g u" and mv: "map_count g v"
    using weight_of_closed [OF vg e] by simp_all
  have w0: "0 \<le> w" and wM: "w \<le> max_weight g"
    using weight_of_in_all_weights [OF e] bounded_weightsD(1) [OF bw] max_weight_ge by blast+
  have du0: "0 \<le> dval st u" and dumax: "dval st u < INT_MAX"
    using d vo uV by (auto simp: dist_ok_def visited_ok_def)
  define n where "n = dval st u + w"
  have n0: "0 \<le> n" using du0 w0 by (simp add: n_def)
  have "dval st u + max_weight g \<le> max_weight g * int (length (visited st))"
    using b uV by (simp add: bound_ok_def)
  then have nb: "n \<le> max_weight g * int (length (visited st))"
    using wM by (simp add: n_def)
  have "max_weight g * int (length (visited st)) \<le> max_weight g * int (length g)"
    using visited_length [OF vo] max_weight_nonneg [of g] by (intro mult_left_mono) simp_all
  with nb max_weight_bound [OF bw] have nmax: "n < INT_MAX" by linarith
  have add: "add32 (dval st u) w = n"
    unfolding n_def using n0 nmax by (intro add32_exact) (simp_all add: n_def INT_MAX_def)
  have top: "\<forall>x \<in> set (visited st). dval st x \<le> dval st u"
    using vo u by (simp add: visited_ok_def)
  have rel: "relax u (v, w) st = (if n < dval st v then improve st u v n else st)"
    using relax_eq [OF d mu mv, of w] dumax by (simp add: add)
  show ?thesis
  proof (cases "n < dval st v")
    case True
    have vV: "v \<notin> set (visited st)"
    proof
      assume "v \<in> set (visited st)"
      with top have "dval st v \<le> dval st u" by blast
      with True w0 show False by (simp add: n_def)
    qed
    have vs: "v \<noteq> start"
    proof
      assume "v = start"
      with d have "dval st v = 0" by (simp add: dist_ok_def)
      with True n0 show False by simp
    qed
    have dvmax: "dval st v \<le> INT_MAX" using d by (simp add: dist_ok_def)
    have topn: "\<forall>x \<in> set (visited st). dval st x \<le> n"
      using top w0 by (fastforce simp: n_def)
    have 1: "dist_ok g start (improve st u v n)"
      using d mv vs n0 nmax by (intro improve_dist_ok) simp_all
    have 2: "bound_ok g (improve st u v n)"
      using b vV nb by (rule improve_bound_ok)
    have 3: "visited_ok g (improve st u v n)"
      using vo vV ne by (rule improve_visited_ok)
    have 4: "queue_ok g (improve st u v n)"
      using q vV mv True dvmax topn by (rule improve_queue_ok)
    have 5: "pred_ok g start (improve st u v n)"
      using p vV uV vs mv e n_def by (rule improve_pred_ok)
    have 6: "relaxed_ok g rest (improve st u v n)"
      unfolding relaxed_ok_def
    proof (intro ballI allI impI)
      fix u' y w'
      assume u': "u' \<in> set (visited (improve st u v n))"
        and e': "weight_of g u' y = Some w'"
      from u' have u'V: "u' \<in> set (visited st)" by (simp add: improve_simps)
      with vV have u'v: "u' \<noteq> v" by blast
      have dy: "dval (improve st u v n) y \<le> dval st y"
        using True by (simp add: improve_simps)
      from r u'V e' have "(u' = hd (visited st) \<and> (y, w') \<in> set ((v, w) # rest))
          \<or> dval st y \<le> dval st u' + w'"
        unfolding relaxed_ok_def by blast
      then consider (this_edge) "u' = u" "y = v" "w' = w"
        | (todo) "u' = hd (visited st)" "(y, w') \<in> set rest"
        | (relaxed) "dval st y \<le> dval st u' + w'"
        using u by auto
      then show "(u' = hd (visited (improve st u v n)) \<and> (y, w') \<in> set rest)
          \<or> dval (improve st u v n) y \<le> dval (improve st u v n) u' + w'"
      proof cases
        case this_edge
        then show ?thesis using u'v by (simp add: improve_simps n_def)
      next
        case todo
        then show ?thesis by (simp add: improve_simps)
      next
        case relaxed
        with dy have "dval (improve st u v n) y \<le> dval st u' + w'" by linarith
        then show ?thesis using u'v by (simp add: improve_simps)
      qed
    qed
    from 1 2 3 4 5 6 show ?thesis using True by (simp add: rel dinv_def)
  next
    case False
    have "relaxed_ok g rest st"
      unfolding relaxed_ok_def
    proof (intro ballI allI impI)
      fix u' y w'
      assume u'V: "u' \<in> set (visited st)" and e': "weight_of g u' y = Some w'"
      from r u'V e' have "(u' = hd (visited st) \<and> (y, w') \<in> set ((v, w) # rest))
          \<or> dval st y \<le> dval st u' + w'"
        unfolding relaxed_ok_def by blast
      then consider (this_edge) "u' = u" "y = v" "w' = w"
        | (todo) "u' = hd (visited st)" "(y, w') \<in> set rest"
        | (relaxed) "dval st y \<le> dval st u' + w'"
        using u by auto
      then show "(u' = hd (visited st) \<and> (y, w') \<in> set rest)
          \<or> dval st y \<le> dval st u' + w'"
      proof cases
        case this_edge
        then show ?thesis using False by (simp add: n_def)
      next
        case todo
        then show ?thesis by simp
      next
        case relaxed
        then show ?thesis by simp
      qed
    qed
    with d b vo q p show ?thesis using False by (simp add: rel dinv_def)
  qed
qed

lemma fold_relax_dinv:
  assumes vg: "valid_graph g" and bw: "bounded_weights g"
  shows "dinv g start todo st \<Longrightarrow> visited st \<noteq> [] \<Longrightarrow> u = hd (visited st)
     \<Longrightarrow> \<forall>e \<in> set todo. weight_of g u (fst e) = Some (snd e)
     \<Longrightarrow> dinv g start [] (fold (relax u) todo st)"
proof (induction todo arbitrary: st)
  case Nil
  then show ?case by simp
next
  case (Cons e todo)
  obtain v w where e: "e = (v, w)" by (cases e)
  have "dinv g start todo (relax u (v, w) st)"
    using vg bw Cons.prems(1) [unfolded e] Cons.prems(2,3)
  proof (rule relax_dinv)
    show "weight_of g u v = Some w" using Cons.prems(4) e by simp
  qed
  moreover have "visited (relax u (v, w) st) = visited st" by (rule relax_visited)
  ultimately show ?case
    using Cons.IH [of "relax u (v, w) st"] Cons.prems(2,3,4) by (simp add: e)
qed

lemma pq_top_least: "y \<in> set (x # xs) \<Longrightarrow> pq_top x xs \<le> y"
proof -
  assume y: "y \<in> set (x # xs)"
  have "pq_top x xs = Min (set (x # xs))"
    unfolding pq_top_def by (rule Min.set_eq_fold [symmetric])
  with y show ?thesis by simp
qed

lemma pq_top_fst_least: "y \<in> set (x # xs) \<Longrightarrow> fst (pq_top x xs) \<le> fst y"
  using pq_top_least [of y x xs]
  by (cases "pq_top x xs"; cases y) auto

lemma pop_visited_dinv:
  assumes inv: "dinv g start [] st" and pq: "pq st = x # xs"
    and tp: "tp = pq_top x xs" and vis: "snd tp \<in> set (visited st)"
  shows "dinv g start [] (st\<lparr>pq := remove1 tp (pq st)\<rparr>)"
proof -
  let ?st = "st\<lparr>pq := remove1 tp (pq st)\<rparr>"
  from inv have d: "dist_ok g start st" and b: "bound_ok g st" and vo: "visited_ok g st"
    and q: "queue_ok g st" and p: "pred_ok g start st" and r: "relaxed_ok g [] st"
    by (simp_all add: dinv_def)
  have dv: "dval ?st = dval st" by (simp add: dval_def fun_eq_iff)
  have sub: "set (pq ?st) \<subseteq> set (pq st)"
    using set_remove1_subset [of tp "pq st"] by simp
  have "dist_ok g start ?st = dist_ok g start st" by (simp add: dist_ok_def dv)
  with d have 1: "dist_ok g start ?st" by simp
  have "bound_ok g ?st = bound_ok g st" by (simp add: bound_ok_def dv)
  with b have 2: "bound_ok g ?st" by simp
  have "visited_ok g ?st = visited_ok g st" by (simp add: visited_ok_def dv)
  with vo have 3: "visited_ok g ?st" by simp
  have 4: "queue_ok g ?st"
    unfolding queue_ok_def
  proof (intro conjI allI impI ballI)
    fix e assume "e \<in> set (pq ?st)"
    with sub have "e \<in> set (pq st)" by blast
    with q show "map_count g (snd e)" "dval ?st (snd e) \<le> fst e" "fst e < INT_MAX"
      by (simp_all add: queue_ok_def dv)
  next
    fix v assume v: "map_count g v \<and> dval ?st v < INT_MAX \<and> v \<notin> set (visited ?st)"
    with q have "(dval st v, v) \<in> set (pq st)" by (simp add: queue_ok_def dv)
    moreover from v vis have "(dval st v, v) \<noteq> tp" by auto
    ultimately show "(dval ?st v, v) \<in> set (pq ?st)" by (simp add: dv)
  next
    fix u e assume "u \<in> set (visited ?st)" "e \<in> set (pq ?st)"
    with sub have "u \<in> set (visited st)" "e \<in> set (pq st)" by auto
    with q show "dval ?st u \<le> fst e" by (simp add: queue_ok_def dv)
  qed
  have "pred_ok g start ?st = pred_ok g start st" by (simp add: pred_ok_def dv)
  with p have 5: "pred_ok g start ?st" by simp
  have "relaxed_ok g [] ?st = relaxed_ok g [] st" by (simp add: relaxed_ok_def dv)
  with r have 6: "relaxed_ok g [] ?st" by simp
  from 1 2 3 4 5 6 show ?thesis by (simp add: dinv_def)
qed

lemma pop_unvisited_dinv:
  assumes vg: "valid_graph g"
    and inv: "dinv g start [] st" and pq: "pq st = x # xs"
    and tp: "tp = pq_top x xs" and u: "u = snd tp" and vis: "u \<notin> set (visited st)"
  shows "dinv g start (adjacency g u) (st\<lparr>pq := remove1 tp (pq st), visited := u # visited st\<rparr>)"
    and "map_count g u"
proof -
  let ?st = "st\<lparr>pq := remove1 tp (pq st), visited := u # visited st\<rparr>"
  from inv have d: "dist_ok g start st" and b: "bound_ok g st" and vo: "visited_ok g st"
    and q: "queue_ok g st" and p: "pred_ok g start st" and r: "relaxed_ok g [] st"
    by (simp_all add: dinv_def)
  have dv: "dval ?st = dval st" by (simp add: dval_def fun_eq_iff)
  have sub: "set (pq ?st) \<subseteq> set (pq st)"
    using set_remove1_subset [of tp "pq st"] by simp
  have topin: "tp \<in> set (pq st)" using pq_top_in [of x xs] tp pq by simp
  with q u have mu: "map_count g u" and duk: "dval st u \<le> fst tp" and kmax: "fst tp < INT_MAX"
    by (simp_all add: queue_ok_def)
  show "map_count g u" by (rule mu)
  have dumax: "dval st u < INT_MAX" using duk kmax by simp
  with q mu vis have "(dval st u, u) \<in> set (pq st)" by (simp add: queue_ok_def)
  then have "fst tp \<le> dval st u"
    using pq_top_fst_least [of "(dval st u, u)" x xs] pq tp by simp
  with duk have k: "fst tp = dval st u" by simp
  have least: "\<forall>e \<in> set (pq st). dval st u \<le> fst e"
    using pq_top_fst_least [of _ x xs] pq tp k by simp
  have len: "int (length (visited ?st)) = int (length (visited st)) + 1" by simp
  have M0: "0 \<le> max_weight g" by (rule max_weight_nonneg)
  have "dist_ok g start ?st = dist_ok g start st" by (simp add: dist_ok_def dv)
  with d have 1: "dist_ok g start ?st" by simp
  have 2: "bound_ok g ?st"
    unfolding bound_ok_def dv len
  proof (intro conjI allI impI ballI)
    fix v assume "dval st v \<noteq> INT_MAX"
    with b have "dval st v \<le> max_weight g * int (length (visited st))"
      by (simp add: bound_ok_def)
    with M0 show "dval st v \<le> max_weight g * (int (length (visited st)) + 1)"
      by (simp add: algebra_simps)
  next
    fix v assume "v \<in> set (visited ?st)"
    then consider "v = u" | "v \<in> set (visited st)" by auto
    then show "dval st v + max_weight g \<le> max_weight g * (int (length (visited st)) + 1)"
    proof cases
      case 1
      from b dumax have "dval st u \<le> max_weight g * int (length (visited st))"
        by (simp add: bound_ok_def)
      with 1 show ?thesis by (simp add: algebra_simps)
    next
      case 2
      with b have "dval st v + max_weight g \<le> max_weight g * int (length (visited st))"
        by (simp add: bound_ok_def)
      with M0 show ?thesis by (simp add: algebra_simps)
    qed
  qed
  have below: "\<forall>v \<in> set (visited st). dval st v \<le> dval st u"
    using q topin k unfolding queue_ok_def by fastforce
  have 3: "visited_ok g ?st"
    using vo vis mu dumax below by (auto simp: visited_ok_def dv)
  have 4: "queue_ok g ?st"
    unfolding queue_ok_def
  proof (intro conjI allI impI ballI)
    fix e assume "e \<in> set (pq ?st)"
    with sub have "e \<in> set (pq st)" by blast
    with q show "map_count g (snd e)" "dval ?st (snd e) \<le> fst e" "fst e < INT_MAX"
      by (simp_all add: queue_ok_def dv)
  next
    fix v assume v: "map_count g v \<and> dval ?st v < INT_MAX \<and> v \<notin> set (visited ?st)"
    with q have "(dval st v, v) \<in> set (pq st)" by (simp add: queue_ok_def dv)
    moreover from v u have "(dval st v, v) \<noteq> tp" by auto
    ultimately show "(dval ?st v, v) \<in> set (pq ?st)" by (simp add: dv)
  next
    fix y e assume "y \<in> set (visited ?st)" and e: "e \<in> set (pq ?st)"
    then consider "y = u" | "y \<in> set (visited st)" by auto
    then show "dval ?st y \<le> fst e"
    proof cases
      case 1
      with least sub e show ?thesis by (auto simp: dv)
    next
      case 2
      with q sub e show ?thesis by (auto simp: queue_ok_def dv)
    qed
  qed
  have p1: "\<forall>v pr. predecessors ?st v = Some pr \<longrightarrow>
          v \<noteq> start \<and> pr \<in> set (visited ?st) \<and> map_count g v
          \<and> (\<exists>w. weight_of g pr v = Some w \<and> dval ?st v = dval ?st pr + w)"
  proof (intro allI impI)
    fix v pr assume "predecessors ?st v = Some pr"
    then have "predecessors st v = Some pr" by simp
    with p have "v \<noteq> start \<and> pr \<in> set (visited st) \<and> map_count g v
          \<and> (\<exists>w. weight_of g pr v = Some w \<and> dval st v = dval st pr + w)"
      unfolding pred_ok_def by blast
    then show "v \<noteq> start \<and> pr \<in> set (visited ?st) \<and> map_count g v
          \<and> (\<exists>w. weight_of g pr v = Some w \<and> dval ?st v = dval ?st pr + w)"
      by (simp add: dv)
  qed
  have p2: "\<forall>v. map_count g v \<and> dval ?st v < INT_MAX \<and> v \<noteq> start
             \<longrightarrow> predecessors ?st v \<noteq> None"
    using p by (simp add: pred_ok_def dv)
  have p3: "\<forall>ys' v ys pr. visited ?st = ys' @ v # ys \<and> predecessors ?st v = Some pr
             \<longrightarrow> pr \<in> set ys"
  proof (intro allI impI)
    fix ys' v ys pr
    assume a: "visited ?st = ys' @ v # ys \<and> predecessors ?st v = Some pr"
    then have pv: "predecessors st v = Some pr" by simp
    show "pr \<in> set ys"
    proof (cases ys')
      case Nil
      with a have "ys = visited st" by simp
      moreover from p pv have "pr \<in> set (visited st)" unfolding pred_ok_def by blast
      ultimately show ?thesis by simp
    next
      case (Cons z zs)
      with a have "visited st = zs @ v # ys" by simp
      with p pv show ?thesis unfolding pred_ok_def by blast
    qed
  qed
  from p1 p2 p3 have 5: "pred_ok g start ?st" unfolding pred_ok_def by blast
  have 6: "relaxed_ok g (adjacency g u) ?st"
    unfolding relaxed_ok_def
  proof (intro ballI allI impI)
    fix y v w assume "y \<in> set (visited ?st)" and e: "weight_of g y v = Some w"
    then consider "y = u" | "y \<in> set (visited st)" by auto
    then show "(y = hd (visited ?st) \<and> (v, w) \<in> set (adjacency g u))
         \<or> dval ?st v \<le> dval ?st y + w"
    proof cases
      case 1
      with e weight_of_iff [OF vg, of u v w] show ?thesis by simp
    next
      case 2
      with r e have "dval st v \<le> dval st y + w" by (simp add: relaxed_ok_def)
      then show ?thesis by (simp add: dv)
    qed
  qed
  from 1 2 3 4 5 6
  show "dinv g start (adjacency g u) ?st" by (simp add: dinv_def)
qed

lemma exploreNeighbors_eq:
  "map_count g u \<Longrightarrow> exploreNeighbors g u st = (fold (relax u) (adjacency g u) st, g)"
  by (auto simp: exploreNeighbors_def map_index_present adjacency_def map_count_def)

lemma explore_dinv:
  assumes vg: "valid_graph g" and bw: "bounded_weights g"
    and inv: "dinv g start [] st" and pq: "pq st = x # xs"
    and tp: "tp = pq_top x xs" and vis: "snd tp \<notin> set (visited st)"
  shows "dinv g start []
           (fst (exploreNeighbors g (snd tp)
                   (st\<lparr>pq := remove1 tp (pq st), visited := snd tp # visited st\<rparr>)))"
proof -
  let ?u = "snd tp"
  let ?st = "st\<lparr>pq := remove1 tp (pq st), visited := ?u # visited st\<rparr>"
  have i: "dinv g start (adjacency g ?u) ?st" and mu: "map_count g ?u"
    using pop_unvisited_dinv [OF vg inv pq tp refl vis] by blast+
  have edges: "\<forall>e \<in> set (adjacency g ?u). weight_of g ?u (fst e) = Some (snd e)"
    using weight_of_iff [OF vg, of ?u] by simp
  have "dinv g start [] (fold (relax ?u) (adjacency g ?u) ?st)"
    using vg bw i _ _ edges by (rule fold_relax_dinv) simp_all
  then show ?thesis by (simp add: exploreNeighbors_eq [OF mu])
qed

lemma dijkstraLoop_dinv:
  assumes vg: "valid_graph g" and bw: "bounded_weights g"
  shows "dinv g start [] st \<Longrightarrow>
           dinv g start [] (fst (dijkstraLoop g st)) \<and> pq (fst (dijkstraLoop g st)) = []"
  using vg bw
proof (induction g st rule: dijkstraLoop.induct)
  case (1 g st)
  note vg = "1.prems"(2) and bw = "1.prems"(3) and inv = "1.prems"(1)
  show ?case
  proof (cases "pq st")
    case Nil
    then show ?thesis using inv by (subst (1 2) dijkstraLoop.simps) simp
  next
    case (Cons x xs)
    define tp where "tp = pq_top x xs"
    define st1 where "st1 = st\<lparr>pq := remove1 tp (x # xs)\<rparr>"
    have st1: "st1 = st\<lparr>pq := remove1 tp (pq st)\<rparr>"
      unfolding st1_def by (simp only: Cons)
    show ?thesis
    proof (cases "snd tp \<in> set (visited st1)")
      case True
      then have vis: "snd tp \<in> set (visited st)" by (simp add: st1)
      have "dinv g start [] st1"
        unfolding st1 using inv Cons tp_def vis by (rule pop_visited_dinv)
      then have "dinv g start [] (fst (dijkstraLoop g st1))
                  \<and> pq (fst (dijkstraLoop g st1)) = []"
        using "1.IH"(1) [OF Cons tp_def refl st1_def True] vg bw by blast
      moreover have "dijkstraLoop g st = dijkstraLoop g st1"
        using Cons True
        by (subst dijkstraLoop.simps) (simp add: Let_def tp_def st1_def)
      ultimately show ?thesis by simp
    next
      case False
      then have vis: "snd tp \<notin> set (visited st)" by (simp add: st1)
      define ex where
        "ex = exploreNeighbors g (snd tp) (st1\<lparr>visited := snd tp # visited st1\<rparr>)"
      have arg: "st1\<lparr>visited := snd tp # visited st1\<rparr>
                   = st\<lparr>pq := remove1 tp (pq st), visited := snd tp # visited st\<rparr>"
        by (simp add: st1)
      have g: "snd ex = g" unfolding ex_def by (rule exploreNeighbors_graph)
      have "dinv g start [] (fst ex)"
        unfolding ex_def arg using vg bw inv Cons tp_def vis by (rule explore_dinv)
      then have "dinv g start [] (fst (dijkstraLoop (snd ex) (fst ex)))
                  \<and> pq (fst (dijkstraLoop (snd ex) (fst ex))) = []"
        using "1.IH"(2) [OF Cons tp_def refl st1_def False] vg bw
        unfolding ex_def [symmetric] g by blast
      moreover have "dijkstraLoop g st = dijkstraLoop (snd ex) (fst ex)"
        using Cons False
        by (subst dijkstraLoop.simps) (simp add: Let_def tp_def st1_def ex_def)
      ultimately show ?thesis by simp
    qed
  qed
qed

lemma fold_init_distances:
  "fold (\<lambda>pair d. d(fst pair \<mapsto> INT_MAX)) g m v
     = (if v \<in> fst ` set g then Some INT_MAX else m v)"
  by (induction g arbitrary: m) auto

lemma initDistances_eq:
  "initDistances g v = (if map_count g v then Some INT_MAX else None)"
  by (simp add: initDistances_def fold_init_distances map_count_iff)

lemma dval_search_start:
  "dval (search_start g start) v
     = (if v = start then 0 else if map_count g v then INT_MAX else 0)"
  by (simp add: dval_def search_start_def dist_read_def initDistances_eq)

lemma search_start_dinv:
  assumes "map_count g start"
  shows "dinv g start [] (search_start g start)"
proof -
  let ?st = "search_start g start"
  have f: "visited ?st = []" "pq ?st = [(0, start)]" "predecessors ?st = Map.empty"
    by (simp_all add: search_start_def)
  have "\<forall>v. (distances ?st v \<noteq> None) = map_count g v"
    using assms by (simp add: search_start_def initDistances_eq)
  then have 1: "dist_ok g start ?st"
    using assms by (simp add: dist_ok_def dval_search_start INT_MAX_def)
  have 2: "bound_ok g ?st" by (simp add: bound_ok_def f dval_search_start)
  have 3: "visited_ok g ?st" by (simp add: visited_ok_def f)
  have 4: "queue_ok g ?st"
    using assms by (simp add: queue_ok_def f dval_search_start INT_MAX_def)
  have 5: "pred_ok g start ?st" by (simp add: pred_ok_def f dval_search_start)
  have 6: "relaxed_ok g [] ?st" by (simp add: relaxed_ok_def f)
  from 1 2 3 4 5 6 show ?thesis by (simp add: dinv_def)
qed

lemma search_dinv:
  assumes "valid_graph g" and "bounded_weights g" and "map_count g start"
  shows "dinv g start [] (search g start)" and "pq (search g start) = []"
  using dijkstraLoop_dinv [OF assms(1,2) search_start_dinv [OF assms(3)]]
  by (simp_all add: search_def)

section \<open>Walks, and the path that is returned\<close>

lemma weight_of_source: "weight_of g a b = Some w \<Longrightarrow> map_count g a"
  by (auto simp: weight_of_def adjacency_def map_count_def split: option.splits)

lemma is_walk_snoc:
  "q \<noteq> [] \<Longrightarrow> is_walk g (q @ [y]) = (is_walk g q \<and> weight_of g (last q) y \<noteq> None
      \<and> map_count g y)"
proof (induction g q rule: is_walk.induct)
  case (1 g)
  then show ?case by simp
next
  case (2 g a)
  then show ?case by (auto dest: weight_of_source)
next
  case (3 g a b rest)
  then show ?case by auto
qed

lemma walk_weight_snoc:
  "q \<noteq> [] \<Longrightarrow> walk_weight g (q @ [y])
      = walk_weight g q + (case weight_of g (last q) y of None \<Rightarrow> 0 | Some w \<Rightarrow> w)"
proof (induction g q rule: walk_weight.induct)
  case (1 g a b rest)
  then show ?case by simp
qed simp_all

lemma walkBack_chain:
  assumes d: "dist_ok g start st" and vo: "visited_ok g st" and p: "pred_ok g start st"
  shows "visited st = xs @ v # ys \<Longrightarrow> v \<noteq> start \<Longrightarrow>
     \<exists>l. (\<forall>acc. walkBack (predecessors st) start v acc = Some (acc @ l))
         \<and> 2 \<le> length l \<and> hd l = v \<and> last l = start
         \<and> is_walk g (rev l) \<and> walk_weight g (rev l) = dval st v"
proof (induction "length ys" arbitrary: xs v ys rule: less_induct)
  case less
  have vV: "v \<in> set (visited st)" using less.prems(1) by simp
  with vo have mv: "map_count g v" and dv: "dval st v < INT_MAX"
    by (simp_all add: visited_ok_def)
  with p less.prems(2) obtain pr where pr: "predecessors st v = Some pr"
    unfolding pred_ok_def by blast
  with p less.prems(1) have prys: "pr \<in> set ys" unfolding pred_ok_def by blast
  from p pr obtain w where w: "weight_of g pr v = Some w"
    and dw: "dval st v = dval st pr + w"
    unfolding pred_ok_def by blast
  show ?case
  proof (cases "pr = start")
    case True
    have "\<forall>acc. walkBack (predecessors st) start v acc = Some (acc @ [v, start])"
      using pr True by (subst walkBack.simps) simp
    moreover have "is_walk g (rev [v, start])" using w True mv by simp
    moreover have "walk_weight g (rev [v, start]) = dval st v"
      using w True dw d by (simp add: dist_ok_def)
    ultimately show ?thesis by (intro exI [of _ "[v, start]"]) simp
  next
    case False
    from prys obtain ys1 ys2 where ys: "ys = ys1 @ pr # ys2"
      by (auto dest: split_list)
    then have "visited st = (xs @ v # ys1) @ pr # ys2" using less.prems(1) by simp
    moreover have "length ys2 < length ys" using ys by simp
    ultimately obtain l where
      l: "\<forall>acc. walkBack (predecessors st) start pr acc = Some (acc @ l)"
      and len: "2 \<le> length l" and hd: "hd l = pr" and last: "last l = start"
      and walk: "is_walk g (rev l)" and ww: "walk_weight g (rev l) = dval st pr"
      using less.hyps [of ys2 "xs @ v # ys1" pr] False by blast
    have ne: "l \<noteq> []" using len by auto
    have "\<forall>acc. walkBack (predecessors st) start v acc = Some (acc @ v # l)"
      using pr False l by (subst walkBack.simps) simp
    moreover have "last (rev l) = pr" using hd ne by (simp add: last_rev)
    then have "is_walk g (rev (v # l))" "walk_weight g (rev (v # l)) = dval st v"
      using walk ww w dw mv ne by (simp_all add: is_walk_snoc walk_weight_snoc)
    moreover have "last (v # l) = start" using last ne by simp
    ultimately show ?thesis using len by (intro exI [of _ "v # l"]) simp
  qed
qed

lemma search_reaches:
  assumes vg: "valid_graph g" and bw: "bounded_weights g"
    and inv: "dinv g start [] st" and pq: "pq st = []"
  shows "is_walk g q \<Longrightarrow> hd q = start \<Longrightarrow>
     last q \<in> set (visited st) \<and> dval st (last q) \<le> walk_weight g q"
proof (induction q rule: rev_induct)
  case Nil
  then show ?case by simp
next
  case (snoc y q)
  from inv have d: "dist_ok g start st" and b: "bound_ok g st" and vo: "visited_ok g st"
    and qo: "queue_ok g st" and r: "relaxed_ok g [] st"
    by (simp_all add: dinv_def)
  have all_visited: "map_count g v \<Longrightarrow> dval st v < INT_MAX \<Longrightarrow> v \<in> set (visited st)" for v
    using qo pq unfolding queue_ok_def by auto
  show ?case
  proof (cases "q = []")
    case True
    with snoc.prems have y: "y = start" by simp
    with d have "map_count g y" "dval st y = 0" by (simp_all add: dist_ok_def)
    with all_visited [of y] True show ?thesis by (simp add: INT_MAX_def)
  next
    case False
    with snoc.prems have walk: "is_walk g q" and e: "weight_of g (last q) y \<noteq> None"
      and my: "map_count g y" and hd: "hd q = start"
      by (simp_all add: is_walk_snoc)
    from e obtain w where w: "weight_of g (last q) y = Some w" by blast
    from snoc.IH [OF walk hd] have xV: "last q \<in> set (visited st)"
      and dx: "dval st (last q) \<le> walk_weight g q" by simp_all
    from r xV w have rel: "dval st y \<le> dval st (last q) + w"
      by (simp add: relaxed_ok_def)
    have wM: "w \<le> max_weight g"
      using weight_of_in_all_weights [OF w] by (rule max_weight_ge)
    have "dval st (last q) + max_weight g \<le> max_weight g * int (length (visited st))"
      using b xV by (simp add: bound_ok_def)
    moreover
    have "max_weight g * int (length (visited st)) \<le> max_weight g * int (length g)"
      using visited_length [OF vo] max_weight_nonneg [of g] by (intro mult_left_mono) simp_all
    ultimately have "dval st y < INT_MAX"
      using rel wM max_weight_bound [OF bw] by linarith
    with all_visited [OF my] have "y \<in> set (visited st)" by simp
    moreover have "walk_weight g (q @ [y]) = walk_weight g q + w"
      using False w by (simp add: walk_weight_snoc)
    ultimately show ?thesis using rel dx by simp
  qed
qed

lemma walk_weight_nonneg: "bounded_weights g \<Longrightarrow> 0 \<le> walk_weight g q"
proof (induction g q rule: walk_weight.induct)
  case (1 g a b rest)
  show ?case
  proof (cases "weight_of g a b")
    case None
    with 1 show ?thesis by simp
  next
    case (Some w)
    then have "0 \<le> w"
      using weight_of_in_all_weights bounded_weightsD(1) [OF "1.prems"] by blast
    with 1 Some show ?thesis by simp
  qed
qed simp_all

lemma weight_of_lookup:
  assumes "weight_of g a b = Some w"
  shows "\<exists>adj. map_of g a = Some adj \<and> map_of adj b = Some w"
  using assms by (auto simp: weight_of_def adjacency_def split: option.splits)

lemma pathLoop_walk:
  "bounded_weights g \<Longrightarrow> is_walk g path \<Longrightarrow> 0 \<le> t
     \<Longrightarrow> t + walk_weight g path \<le> INT_MAX
     \<Longrightarrow> pathLoop g path t = (t + walk_weight g path, g)"
proof (induction g path t rule: pathLoop.induct)
  case (1 g a b rest t)
  from "1.prems"(2) obtain w where w: "weight_of g a b = Some w"
    and walk: "is_walk g (b # rest)" by auto
  from weight_of_lookup [OF w] obtain adj where
    adj: "map_of g a = Some adj" and adjb: "map_of adj b = Some w" by blast
  have cnt: "map_count g a" "map_count adj b"
    using adj adjb by (simp_all add: map_count_def)
  have mi: "map_index g a [] = (adj, g)" using adj by (simp add: map_index_def)
  have mi2: "map_index2 g a b = (w, g)" using adj adjb by (rule map_index2_present)
  have w0: "0 \<le> w"
    using weight_of_in_all_weights [OF w] bounded_weightsD(1) [OF "1.prems"(1)] by blast
  have rest0: "0 \<le> walk_weight g (b # rest)"
    using "1.prems"(1) by (rule walk_weight_nonneg)
  have total: "t + w + walk_weight g (b # rest) \<le> INT_MAX"
    using "1.prems"(4) w by simp
  have add: "add32 t w = t + w"
    using "1.prems"(3) w0 rest0 total by (intro add32_exact) (simp_all add: INT_MAX_def)
  have "pathLoop g (b # rest) (add32 t w) = (add32 t w + walk_weight g (b # rest), g)"
    using "1.IH" [OF cnt(1) mi [symmetric] cnt(2) mi2 [symmetric] "1.prems"(1) walk]
      "1.prems"(3) w0 total by (simp add: add)
  then show ?case using cnt mi mi2 w by (simp add: add)
qed simp_all

lemma calculatePathDistance_walk:
  assumes "bounded_weights g" and "is_walk g path" and "walk_weight g path \<le> INT_MAX"
  shows "calculatePathDistance g path = (walk_weight g path, g)"
proof (cases "length path < 2")
  case True
  then have "walk_weight g path = 0"
    by (cases path) auto
  with True show ?thesis by (simp add: calculatePathDistance_def)
next
  case False
  with pathLoop_walk [OF assms(1,2), of 0] assms(3) show ?thesis
    by (simp add: calculatePathDistance_def)
qed

lemma dijkstraLoop_search:
  "dijkstraLoop g (search_start g start) = (search g start, g)"
  by (simp add: search_def prod_eq_iff dijkstraLoop_graph)

lemma findShortestPath_unknown:
  "\<not> map_count g start \<Longrightarrow> findShortestPath g start end' = Some ([], g)"
  by (simp add: findShortestPath_def initDistances_eq)

lemma findShortestPath_known:
  assumes "map_count g start"
  shows "findShortestPath g start end' =
           (case distances (search g start) end' of
              None \<Rightarrow> Some ([], g)
            | Some d \<Rightarrow>
                if d = INT_MAX then Some ([], g)
                else
                  (case walkBack (predecessors (search g start)) start end' [] of
                     None \<Rightarrow> None
                   | Some walked \<Rightarrow>
                       if rev walked \<noteq> [] \<and> hd (rev walked) = start
                       then Some (rev walked, g) else Some ([], g)))"
proof -
  have "initDistances g start \<noteq> None" using assms by (simp add: initDistances_eq)
  moreover have "dijkstraLoop g \<lparr>distances = (initDistances g)(start \<mapsto> 0),
                     predecessors = Map.empty, visited = [], pq = [(0, start)]\<rparr>
                   = (search g start, g)"
    using dijkstraLoop_search [of g start] by (simp add: search_start_def)
  ultimately show ?thesis
    by (auto simp: findShortestPath_def Let_def split: option.splits)
qed

lemma shortest_path_spec:
  assumes vg: "valid_graph g" and bw: "bounded_weights g"
  shows "\<exists>path. findShortestPath g start end' = Some (path, g)
     \<and> (path = []) = (\<not> map_count g start \<or> \<not> map_count g end' \<or> start = end'
                        \<or> dval (search g start) end' = INT_MAX)
     \<and> (path \<noteq> [] \<longrightarrow> is_walk g path \<and> hd path = start \<and> last path = end'
                          \<and> walk_weight g path = dval (search g start) end')"
proof (cases "map_count g start")
  case False
  then show ?thesis by (simp add: findShortestPath_unknown)
next
  case True
  let ?st = "search g start"
  note fsp = findShortestPath_known [OF True, of end']
  have inv: "dinv g start [] ?st" and pq: "pq ?st = []"
    using search_dinv [OF vg bw True] by simp_all
  from inv have d: "dist_ok g start ?st" and vo: "visited_ok g ?st"
    and qo: "queue_ok g ?st" and p: "pred_ok g start ?st"
    by (simp_all add: dinv_def)
  show ?thesis
  proof (cases "distances ?st end'")
    case None
    with d have "\<not> map_count g end'" unfolding dist_ok_def by metis
    with None True show ?thesis unfolding fsp by simp
  next
    case (Some dd)
    with d have me: "map_count g end'" unfolding dist_ok_def by (metis option.distinct(1))
    have dd: "dd = dval ?st end'" using Some by (simp add: dval_def dist_read_def)
    show ?thesis
    proof (cases "dd = INT_MAX")
      case True
      with Some dd show ?thesis unfolding fsp by simp
    next
      case False
      with d dd have fin: "dval ?st end' < INT_MAX"
        unfolding dist_ok_def by (metis order_le_less)
      show ?thesis
      proof (cases "end' = start")
        case same: True
        from p have "predecessors ?st start = None"
          unfolding pred_ok_def by (metis option.exhaust)
        then have "walkBack (predecessors ?st) start end' [] = Some []"
          using same by (subst walkBack.simps) simp
        with Some False same show ?thesis unfolding fsp by simp
      next
        case differ: False
        from qo pq me fin have "end' \<in> set (visited ?st)"
          unfolding queue_ok_def by auto
        then obtain xs ys where "visited ?st = xs @ end' # ys"
          by (auto dest: split_list)
        from walkBack_chain [OF d vo p this differ] obtain l where
          l: "\<forall>acc. walkBack (predecessors ?st) start end' acc = Some (acc @ l)"
          and len: "2 \<le> length l" and hd: "hd l = end'" and last: "last l = start"
          and walk: "is_walk g (rev l)" and ww: "walk_weight g (rev l) = dval ?st end'"
          by blast
        have ne: "l \<noteq> []" using len by auto
        from l have wb: "walkBack (predecessors ?st) start end' [] = Some l"
          by (metis append_Nil)
        have "hd (rev l) = start" "last (rev l) = end'"
          using ne hd last by (simp_all add: hd_rev last_rev)
        with Some False differ me True walk ww ne fin show ?thesis
          unfolding fsp by (simp add: wb)
      qed
    qed
  qed
qed

lemma search_dist_range:
  assumes "valid_graph g" and "bounded_weights g" and "map_count g start"
  shows "0 \<le> dval (search g start) v" and "dval (search g start) v \<le> INT_MAX"
    and "dval (search g start) start = 0"
  using search_dinv(1) [OF assms] by (simp_all add: dinv_def dist_ok_def)

section \<open>The search from the other end\<close>

lemma walk_rev:
  "undirected g \<Longrightarrow> is_walk g q
     \<Longrightarrow> is_walk g (rev q) \<and> walk_weight g (rev q) = walk_weight g q"
proof (induction g q rule: is_walk.induct)
  case (1 g)
  then show ?case by simp
next
  case (2 g a)
  then show ?case by simp
next
  case (3 g a b rest)
  from "3.prems" obtain w where w: "weight_of g a b = Some w"
    and walk: "is_walk g (b # rest)" by auto
  from "3.IH" [OF "3.prems"(1) walk] have ih: "is_walk g (rev (b # rest))"
    "walk_weight g (rev (b # rest)) = walk_weight g (b # rest)" by simp_all
  have sym: "weight_of g b a = Some w" using "3.prems"(1) w unfolding undirected_def by metis
  have last: "last (rev (b # rest)) = b" by simp
  have ne: "rev (b # rest) \<noteq> []" by simp
  have "rev (a # b # rest) = rev (b # rest) @ [a]" by simp
  moreover have "is_walk g (rev (b # rest) @ [a])"
    using ih(1) sym weight_of_source [OF w]
    by (simp only: is_walk_snoc [OF ne] last) simp
  moreover have "walk_weight g (rev (b # rest) @ [a]) = walk_weight g (a # b # rest)"
    using ih(2) sym w by (simp only: walk_weight_snoc [OF ne] last) simp
  ultimately show ?case by simp
qed

lemma dijkstra_distance_le:
  assumes vg: "valid_graph g" and un: "undirected g" and bw: "bounded_weights g"
    and ma: "map_count g a" and mb: "map_count g b"
    and fin: "dijkstra_distance g a b < INT_MAX"
  shows "dijkstra_distance g b a \<le> dijkstra_distance g a b"
proof (cases "a = b")
  case True
  then show ?thesis by simp
next
  case False
  from shortest_path_spec [OF vg bw, of a b] obtain path where
    empty: "(path = []) = (\<not> map_count g a \<or> \<not> map_count g b \<or> a = b
                        \<or> dval (search g a) b = INT_MAX)"
    and walk: "path \<noteq> [] \<longrightarrow> is_walk g path \<and> hd path = a \<and> last path = b
                          \<and> walk_weight g path = dval (search g a) b"
    by blast
  from empty ma mb False fin have ne: "path \<noteq> []"
    by (simp add: dijkstra_distance_def)
  with walk have w: "is_walk g path" "hd path = a" "last path = b"
    and ww: "walk_weight g path = dval (search g a) b" by simp_all
  from walk_rev [OF un w(1)] have r: "is_walk g (rev path)"
    "walk_weight g (rev path) = walk_weight g path" by simp_all
  have "hd (rev path) = b" "last (rev path) = a"
    using ne w(2,3) by (simp_all add: hd_rev last_rev)
  with search_reaches [OF vg bw search_dinv [OF vg bw mb] r(1)]
  have "dval (search g b) a \<le> walk_weight g (rev path)" by simp
  then show ?thesis by (simp add: r(2) ww dijkstra_distance_def)
qed

lemma dijkstra_distance_sym:
  assumes vg: "valid_graph g" and un: "undirected g" and bw: "bounded_weights g"
    and ma: "map_count g a" and mb: "map_count g b"
  shows "dijkstra_distance g a b = dijkstra_distance g b a"
proof -
  have ab: "dijkstra_distance g a b \<le> INT_MAX" and ba: "dijkstra_distance g b a \<le> INT_MAX"
    using search_dist_range(2) [OF vg bw ma] search_dist_range(2) [OF vg bw mb]
    by (simp_all add: dijkstra_distance_def)
  show ?thesis
  proof (cases "dijkstra_distance g a b < INT_MAX")
    case True
    from dijkstra_distance_le [OF vg un bw ma mb True]
    have 1: "dijkstra_distance g b a \<le> dijkstra_distance g a b" .
    with True have "dijkstra_distance g b a < INT_MAX" by simp
    from dijkstra_distance_le [OF vg un bw mb ma this] 1 show ?thesis by simp
  next
    case False
    with ab have eq: "dijkstra_distance g a b = INT_MAX" by simp
    have "\<not> dijkstra_distance g b a < INT_MAX"
    proof
      assume fin: "dijkstra_distance g b a < INT_MAX"
      from dijkstra_distance_le [OF vg un bw mb ma fin] fin eq show False by simp
    qed
    with ba eq show ?thesis by simp
  qed
qed

section \<open>The graph of the scenario\<close>

lemma scenario_graph_ok:
  "valid_graph (deliveryGraph scenario)" "undirected (deliveryGraph scenario)"
  "bounded_weights (deliveryGraph scenario)"
proof -
  show "valid_graph (deliveryGraph scenario)"
    using scenario_reached valid_graph_initial by (rule run_valid_graph)
  show "undirected (deliveryGraph scenario)"
    using scenario_reached undirected_initial by (rule run_undirected)
  show "bounded_weights (deliveryGraph scenario)"
    by (simp add: scenario_def bounded_weights_def INT_MAX_def)
qed

text \<open>
  On every valid graph with bounded weights, the query from a location to itself
  returns the empty path.
\<close>

lemma path_to_self_always_empty:
  assumes "valid_graph g" and "bounded_weights g"
  shows "findShortestPath g a a = Some ([], g)"
  using shortest_path_spec [OF assms, of a a] by auto

section \<open>Predecessors that form a cycle\<close>

lemma walkBack_cycle:
  assumes xy: "preds x = Some y" and yx: "preds y = Some x"
    and xs: "x \<noteq> start" and ys: "y \<noteq> start"
  shows "walkBack preds start x path = None"
proof (cases "walkBack preds start x path")
  case None
  then show ?thesis .
next
  case (Some res)
  have "\<not> (preds = preds \<and> start = start \<and> (x = x \<or> x = y))"
  proof (rule walkBack.raw_induct
      [where P = "\<lambda>p s c pth r. \<not> (p = preds \<and> s = start \<and> (c = x \<or> c = y))", OF _ Some],
      goal_cases)
    case (1 f p s c pth r)
    note ih = "1"(1) and body = "1"(2)
    show ?case
    proof
      assume a: "p = preds \<and> s = start \<and> (c = x \<or> c = y)"
      then consider (at_x) "c = x" | (at_y) "c = y" by blast
      then show False
      proof cases
        case at_x
        with a body xy ys have "f preds start y (pth @ [x]) = Some r" by simp
        from ih [OF this] show False by simp
      next
        case at_y
        with a body yx xs have "f preds start x (pth @ [y]) = Some r" by simp
        from ih [OF this] show False by simp
      qed
    qed
  qed
  then show ?thesis by simp
qed

section \<open>optimizeDeliveryRoute returns\<close>

lemma optimizeDeliveryRoute_returns:
  assumes vg: "valid_graph (deliveryGraph s)" and bw: "bounded_weights (deliveryGraph s)"
  shows "optimizeDeliveryRoute s orderId \<noteq> None"
proof (cases "map_count (allOrders s) orderId")
  case False
  then show ?thesis by (simp add: optimizeDeliveryRoute_def)
next
  case True
  define ord where "ord = the (map_of (allOrders s) orderId)"
  have idx: "map_index (allOrders s) orderId default_order = (ord, allOrders s)"
    unfolding ord_def using True by (rule map_index_present)
  show ?thesis
  proof (cases "map_count (deliveryGraph s) ''Depot''")
    case False
    with True show ?thesis by (simp add: optimizeDeliveryRoute_def idx Let_def)
  next
    case depot: True
    from shortest_path_spec [OF vg bw, of "''Depot''" "restaurant ord"] obtain path1 where
      f1: "findShortestPath (deliveryGraph s) ''Depot'' (restaurant ord)
             = Some (path1, deliveryGraph s)" by blast
    from shortest_path_spec [OF vg bw, of "restaurant ord" "destination ord"] obtain path2 where
      f2: "findShortestPath (deliveryGraph s) (restaurant ord) (destination ord)
             = Some (path2, deliveryGraph s)" by blast
    show ?thesis
      using True depot
      by (simp add: optimizeDeliveryRoute_def idx Let_def f1 f2 case_prod_beta
          calculatePathDistance_graph)
  qed
qed

section \<open>The claims\<close>

text \<open>
  C1.  The query from a location to itself returns the empty path, the value that also
  stands for no route, and not the one-element path: the start never gets a
  predecessor, so the loop that walks back from \<open>end\<close> does not run its body, the only
  place that extends the path.  Shown at the graph of the scenario and at the graph that
  \<^verbatim>\<open>main\<close> sets up.
\<close>

theorem path_to_self_is_empty:
  "findShortestPath (deliveryGraph scenario) ''A'' ''A'' = Some ([], deliveryGraph scenario)
   \<and> findShortestPath [(''Depot'', [])] ''Depot'' ''Depot'' = Some ([], [(''Depot'', [])])"
  by code_simp

text \<open>
  C2, as stated, fails on a graph with negative distances.  In the graph that
  \<open>detour_commands\<close> build, the query from A to C returns the path A, C, whose distance
  is \<open>-3\<close>, the value that \<^verbatim>\<open>distances[C]\<close> ends with; the path A, D, B, C has the
  distance \<open>-6\<close>.
\<close>

theorem negative_weights_not_shortest:
  "map_option (\<lambda>r. deliveryGraph (snd r)) (run initial detour_commands) = Some detour_graph
   \<and> findShortestPath detour_graph ''A'' ''C'' = Some ([''A'', ''C''], detour_graph)
   \<and> fst (calculatePathDistance detour_graph [''A'', ''C'']) = - 3
   \<and> dijkstra_distance detour_graph ''A'' ''C'' = - 3
   \<and> is_walk detour_graph [''A'', ''D'', ''B'', ''C'']
   \<and> fst (calculatePathDistance detour_graph [''A'', ''D'', ''B'', ''C'']) = - 6"
  by code_simp

text \<open>
  C2, amended.  On every valid graph with bounded weights, for every \<open>start\<close> and
  \<open>end\<close>, \<open>findShortestPath\<close> returns, and leaves the graph as it was.  When the path it
  returns is not empty, it is a walk from \<open>start\<close> to \<open>end\<close>; the distance that
  \<open>calculatePathDistance\<close> gives for it is its weight and is the entry
  \<^verbatim>\<open>distances[end]\<close> that the search ended with; and no walk from \<open>start\<close> to \<open>end\<close>
  weighs less.
\<close>

theorem shortest_path_distance:
  assumes vg: "valid_graph g" and bw: "bounded_weights g"
  shows "\<exists>path. findShortestPath g start end' = Some (path, g)
     \<and> (path \<noteq> [] \<longrightarrow>
          is_walk g path \<and> hd path = start \<and> last path = end'
          \<and> fst (calculatePathDistance g path) = walk_weight g path
          \<and> fst (calculatePathDistance g path) = dijkstra_distance g start end'
          \<and> (\<forall>q. is_walk g q \<and> hd q = start \<and> last q = end'
                 \<longrightarrow> fst (calculatePathDistance g path) \<le> walk_weight g q))"
proof -
  from shortest_path_spec [OF vg bw, of start end'] obtain path where
    fsp: "findShortestPath g start end' = Some (path, g)"
    and empty: "(path = []) = (\<not> map_count g start \<or> \<not> map_count g end' \<or> start = end'
                        \<or> dval (search g start) end' = INT_MAX)"
    and walk: "path \<noteq> [] \<longrightarrow> is_walk g path \<and> hd path = start \<and> last path = end'
                          \<and> walk_weight g path = dval (search g start) end'"
    by blast
  have "is_walk g path \<and> hd path = start \<and> last path = end'
          \<and> fst (calculatePathDistance g path) = walk_weight g path
          \<and> fst (calculatePathDistance g path) = dijkstra_distance g start end'
          \<and> (\<forall>q. is_walk g q \<and> hd q = start \<and> last q = end'
                 \<longrightarrow> fst (calculatePathDistance g path) \<le> walk_weight g q)"
    if ne: "path \<noteq> []"
  proof -
    from ne empty have ms: "map_count g start" by blast
    from ne walk have w: "is_walk g path" "hd path = start" "last path = end'"
      and ww: "walk_weight g path = dval (search g start) end'" by simp_all
    have "walk_weight g path \<le> INT_MAX"
      unfolding ww using search_dist_range(2) [OF vg bw ms] .
    with bw w(1) have calc: "calculatePathDistance g path = (walk_weight g path, g)"
      by (rule calculatePathDistance_walk)
    have least: "dval (search g start) end' \<le> walk_weight g q"
      if "is_walk g q \<and> hd q = start \<and> last q = end'" for q
      using search_reaches [OF vg bw search_dinv [OF vg bw ms], of q] that by blast
    show ?thesis
      using w calc ww least by (simp add: dijkstra_distance_def)
  qed
  with fsp show ?thesis by blast
qed

theorem shortest_path_distance_witness:
  "findShortestPath (deliveryGraph scenario) ''Depot'' ''B''
     = Some ([''Depot'', ''A'', ''B''], deliveryGraph scenario)
   \<and> fst (calculatePathDistance (deliveryGraph scenario) [''Depot'', ''A'', ''B'']) = 8
   \<and> dijkstra_distance (deliveryGraph scenario) ''Depot'' ''B'' = 8
   \<and> walk_weight (deliveryGraph scenario) [''Depot'', ''A'', ''B''] = 8"
proof -
  have f: "findShortestPath (deliveryGraph scenario) ''Depot'' ''B''
     = Some ([''Depot'', ''A'', ''B''], deliveryGraph scenario)"
    by code_simp
  have c: "fst (calculatePathDistance (deliveryGraph scenario) [''Depot'', ''A'', ''B'']) = 8"
    by code_simp
  from shortest_path_distance [OF scenario_graph_ok(1,3), of "''Depot''" "''B''"] f
  have "fst (calculatePathDistance (deliveryGraph scenario) [''Depot'', ''A'', ''B''])
          = walk_weight (deliveryGraph scenario) [''Depot'', ''A'', ''B'']
        \<and> fst (calculatePathDistance (deliveryGraph scenario) [''Depot'', ''A'', ''B''])
          = dijkstra_distance (deliveryGraph scenario) ''Depot'' ''B''"
    by auto
  with f c show ?thesis by simp
qed

text \<open>
  C3.  In every state that a sequence of operations reaches from the initial one, the
  graph is simple and undirected: \<open>b\<close> is in the adjacency of \<open>a\<close> with weight \<open>w\<close>
  exactly when \<open>a\<close> is in the adjacency of \<open>b\<close> with \<open>w\<close>, and there is at most one
  weight for a pair.  The sequence is arbitrary, so every operation preserves this.
\<close>

theorem graph_simple_undirected:
  "run initial cmds = Some (outs, s) \<Longrightarrow> simple_undirected (deliveryGraph s)"
  by (intro simple_undirectedI)
    (auto intro: run_valid_graph run_undirected valid_graph_initial undirected_initial)

theorem graph_simple_undirected_witness:
  "simple_undirected (deliveryGraph scenario)
   \<and> adjacency (deliveryGraph scenario) ''A'' = [(''B'', 3), (''Depot'', 5)]
   \<and> adjacency (deliveryGraph scenario) ''B'' = [(''A'', 3)]"
  using graph_simple_undirected [OF scenario_reached]
  by (simp add: scenario_def adjacency_def)

text \<open>
  C4.  When \<open>addRoute\<close> is given an endpoint that is not a registered location, or
  \<open>placeOrder\<close> a restaurant or a destination that is not one, the operation reports the
  missing location and returns the state it was given: the graph, the pending queue, the
  completed stack, the order index and the next-id counter are all unchanged, so no
  order is created and no id is consumed.
\<close>

theorem unknown_location_no_mutation:
  "(\<not> map_count (deliveryGraph s) start \<or> \<not> map_count (deliveryGraph s) end'
      \<longrightarrow> addRoute s start end' distance = (ErrLocationMissing, s))
   \<and> (\<not> map_count (deliveryGraph s) rest \<or> \<not> map_count (deliveryGraph s) dest
      \<longrightarrow> placeOrder s rest dest p = (ErrOrderLocationMissing, s))"
  by (auto simp: addRoute_def placeOrder_def)

theorem unknown_location_no_mutation_witness:
  "\<not> map_count (deliveryGraph scenario) ''Nowhere''
   \<and> addRoute scenario ''Depot'' ''Nowhere'' 4 = (ErrLocationMissing, scenario)
   \<and> addRoute scenario ''Nowhere'' ''Depot'' 4 = (ErrLocationMissing, scenario)
   \<and> placeOrder scenario ''Nowhere'' ''B'' 10 = (ErrOrderLocationMissing, scenario)
   \<and> placeOrder scenario ''A'' ''Nowhere'' 10 = (ErrOrderLocationMissing, scenario)"
proof -
  have nowhere: "\<not> map_count (deliveryGraph scenario) ''Nowhere''"
    by (simp add: scenario_def map_count_def)
  show ?thesis
    using nowhere
      unknown_location_no_mutation [of scenario "''Depot''" "''Nowhere''" 4 "''Nowhere''" "''B''" 10]
      unknown_location_no_mutation [of scenario "''Nowhere''" "''Depot''" 4 "''A''" "''Nowhere''" 10]
    by simp
qed

text \<open>
  C5, as stated, fails for large N.  The counter is an \<^verbatim>\<open>int\<close>, and the order that
  follows the one with the id 2147483647 cannot get an id that is one higher.  In the run
  that registers Depot and places 2147482648 orders from Depot to Depot, every placement
  succeeds, the last but one has the id 2147483647, and the last one has the id
  \<open>-2147483648\<close>, the value that \<^verbatim>\<open>nextOrderId++\<close> leaves at \<^verbatim>\<open>INT_MAX\<close> in two's
  complement (C++ leaves this overflow undefined): the ids are not strictly increasing
  and the last step is not an increment by one.
\<close>

theorem order_ids_wrap_around:
  "map_option (\<lambda>(outs, s). (length (placed_ids outs), drop 2147482646 (placed_ids outs)))
     (run initial (many_orders 2147482648))
     = Some (2147482648, [2147483647, - 2147483648])"
  using many_orders_last_two [of 2147482646] by (simp add: wrap32_def)

text \<open>
  C5, for at most 2147482647 successful placements (the ids 1001, ..., 2147483647).  From
  the initial state, the ids that the successful \<open>placeOrder\<close> calls of a run report are
  1001, 1002, ... in this order, one more per successful placement, whatever operations
  stand between them: they are strictly increasing and distinct.  The index holds one
  order for each of these ids, under the id that the order carries, and the queue and the
  stack together hold these same orders, no id twice, also after an order was reverted
  and processed again.  While fewer than 2147482647 orders have been placed, the counter
  is 1001 + N, and a placement with both locations registered is accepted: it reports this
  id and stores the order with this id at the back of the queue and in the index.  A
  placement with a location that is not registered assigns nothing.
\<close>

theorem order_ids_increase:
  assumes "run initial cmds = Some (outs, s)"
    and "length (placed_ids outs) \<le> 2147482647"
  shows "placed_ids outs = map (\<lambda>k. 1001 + int k) [0..<length (placed_ids outs)]
         \<and> sorted_wrt (<) (placed_ids outs)
         \<and> distinct (placed_ids outs)
         \<and> map fst (allOrders s) = placed_ids outs
         \<and> list_all (\<lambda>(k, ord). id' ord = k) (allOrders s)
         \<and> distinct (map id' (incomingOrders s @ completedOrders s))
         \<and> set (incomingOrders s @ completedOrders s) = set (map snd (allOrders s))
         \<and> (length (placed_ids outs) < 2147482647
            \<longrightarrow> nextOrderId s = 1001 + int (length (placed_ids outs)))
         \<and> (length (placed_ids outs) < 2147482647
              \<and> map_count (deliveryGraph s) r \<and> map_count (deliveryGraph s) d
            \<longrightarrow> placeOrder s r d p =
                  (OrderPlaced (1001 + int (length (placed_ids outs))) r d,
                   s\<lparr>nextOrderId := add32 (nextOrderId s) 1,
                     incomingOrders := incomingOrders s
                       @ [\<lparr>id' = 1001 + int (length (placed_ids outs)), restaurant = r,
                            destination = d, price = p\<rparr>],
                     allOrders := allOrders s
                       @ [(1001 + int (length (placed_ids outs)),
                           \<lparr>id' = 1001 + int (length (placed_ids outs)), restaurant = r,
                              destination = d, price = p\<rparr>)]\<rparr>))
         \<and> (\<not> (map_count (deliveryGraph s) r \<and> map_count (deliveryGraph s) d)
            \<longrightarrow> placeOrder s r d p = (ErrOrderLocationMissing, s))"
proof -
  define n where "n = length (placed_ids outs)"
  from run_orders_issued [OF assms]
  have eq: "placed_ids outs = map (\<lambda>k. 1001 + int k) [0..<n]"
    and inv: "orders_issued n s"
    by (simp_all only: n_def)
  from inv have keys: "map fst (allOrders s) = map (\<lambda>k. 1001 + int k) [0..<n]"
    and own: "list_all (\<lambda>(k, ord). id' ord = k) (allOrders s)"
    and dist: "distinct (map id' (incomingOrders s @ completedOrders s))"
    and held: "set (incomingOrders s @ completedOrders s) = set (map snd (allOrders s))"
    and cnt: "nextOrderId s = wrap32 (1001 + int n)"
    by (simp_all only: orders_issued_def)
  have sorted: "sorted_wrt (<) (placed_ids outs)"
    unfolding eq by (simp add: sorted_wrt_map)
  then have distinct: "distinct (placed_ids outs)"
    by (simp add: strict_sorted_iff)
  have c: "nextOrderId s = 1001 + int n" if small: "n < 2147482647"
    unfolding cnt using small by (intro wrap32_exact) simp_all
  then have counter: "n < 2147482647 \<longrightarrow> nextOrderId s = 1001 + int n" ..
  have accepted: "n < 2147482647
              \<and> map_count (deliveryGraph s) r \<and> map_count (deliveryGraph s) d
            \<longrightarrow> placeOrder s r d p =
                  (OrderPlaced (1001 + int n) r d,
                   s\<lparr>nextOrderId := add32 (nextOrderId s) 1,
                     incomingOrders := incomingOrders s
                       @ [\<lparr>id' = 1001 + int n, restaurant = r,
                            destination = d, price = p\<rparr>],
                     allOrders := allOrders s
                       @ [(1001 + int n,
                           \<lparr>id' = 1001 + int n, restaurant = r,
                              destination = d, price = p\<rparr>)]\<rparr>)"
  proof (intro impI, elim conjE)
    assume small: "n < 2147482647"
      and known: "map_count (deliveryGraph s) r" "map_count (deliveryGraph s) d"
    have "a < 1001 + int n" if "a \<in> fst ` set (allOrders s)" for a
    proof -
      from that have "a \<in> set (map fst (allOrders s))" by simp
      then show ?thesis unfolding keys by auto
    qed
    then have app: "map_assign (1001 + int n) v (allOrders s)
                      = allOrders s @ [(1001 + int n, v)]" for v
      by (rule map_assign_append)
    from known show "placeOrder s r d p =
                  (OrderPlaced (1001 + int n) r d,
                   s\<lparr>nextOrderId := add32 (nextOrderId s) 1,
                     incomingOrders := incomingOrders s
                       @ [\<lparr>id' = 1001 + int n, restaurant = r,
                            destination = d, price = p\<rparr>],
                     allOrders := allOrders s
                       @ [(1001 + int n,
                           \<lparr>id' = 1001 + int n, restaurant = r,
                              destination = d, price = p\<rparr>)]\<rparr>)"
      by (simp add: placeOrder_def Let_def c [OF small] app)
  qed
  have refused: "\<not> (map_count (deliveryGraph s) r \<and> map_count (deliveryGraph s) d)
            \<longrightarrow> placeOrder s r d p = (ErrOrderLocationMissing, s)"
    by (simp add: placeOrder_def)
  from eq sorted distinct eq [symmetric] own dist held counter accepted refused
  show ?thesis
    unfolding n_def [symmetric] keys by - (intro conjI, assumption+)
qed

theorem order_ids_increase_witness:
  "placed_ids [LocationAdded ''Depot'', LocationAdded ''A'', LocationAdded ''B'',
               RouteAdded ''Depot'' ''A'' 5, RouteAdded ''A'' ''B'' 3,
               OrderPlaced 1001 ''A'' ''B'', ErrOrderLocationMissing, OrderPlaced 1002 ''B'' ''A'',
               Delivered 1001, Reverted 1001, Delivered 1002,
               OrderPlaced 1003 ''Depot'' ''B''] = [1001, 1002, 1003]
   \<and> map fst (allOrders interleaved) = [1001, 1002, 1003]
   \<and> map id' (map snd (allOrders interleaved)) = [1001, 1002, 1003]
   \<and> map id' (incomingOrders interleaved @ completedOrders interleaved) = [1001, 1003, 1002]
   \<and> nextOrderId interleaved = 1004
   \<and> placeOrder interleaved ''B'' ''Depot'' 40 =
       (OrderPlaced 1004 ''B'' ''Depot'',
        interleaved\<lparr>nextOrderId := 1005,
          incomingOrders := incomingOrders interleaved
            @ [\<lparr>id' = 1004, restaurant = ''B'', destination = ''Depot'', price = 40\<rparr>],
          allOrders := allOrders interleaved
            @ [(1004, \<lparr>id' = 1004, restaurant = ''B'', destination = ''Depot'',
                        price = 40\<rparr>)]\<rparr>)
   \<and> placeOrder interleaved ''A'' ''Nowhere'' 15 = (ErrOrderLocationMissing, interleaved)"
proof -
  have known: "map_count (deliveryGraph interleaved) ''B''"
    "map_count (deliveryGraph interleaved) ''Depot''"
    "\<not> map_count (deliveryGraph interleaved) ''Nowhere''"
    by (simp_all add: interleaved_def map_count_def)
  have ids: "map id' (incomingOrders interleaved @ completedOrders interleaved)
               = [1001, 1003, 1002]"
    "map id' (map snd (allOrders interleaved)) = [1001, 1002, 1003]"
    by (simp_all add: interleaved_def)
  have len: "length (placed_ids ([LocationAdded ''Depot'', LocationAdded ''A'', LocationAdded ''B'',
               RouteAdded ''Depot'' ''A'' 5, RouteAdded ''A'' ''B'' 3,
               OrderPlaced 1001 ''A'' ''B'', ErrOrderLocationMissing, OrderPlaced 1002 ''B'' ''A'',
               Delivered 1001, Reverted 1001, Delivered 1002,
               OrderPlaced 1003 ''Depot'' ''B''] :: int outcome list)) \<le> 2147482647"
    by simp
  show ?thesis
    using order_ids_increase [OF interleaved_reached len, of "''B''" "''Depot''" 40]
      order_ids_increase [OF interleaved_reached len, of "''A''" "''Nowhere''" 15] known ids
    by (simp add: add32_def wrap32_def)
qed

text \<open>
  C6.  In a state whose pending queue is not empty, \<open>processNextOrder\<close> followed at once
  by \<open>revertLastDelivery\<close> leaves the state as it was except for the pending queue, whose
  front order (the same record: id, restaurant, destination and price) is now at its
  back; the queue is as long as before and the completed stack is unchanged.
\<close>

theorem process_then_revert:
  assumes "incomingOrders s = front # rest"
  shows "processNextOrder s = (Delivered (id' front), snd (processNextOrder s))
         \<and> revertLastDelivery (snd (processNextOrder s))
             = (Reverted (id' front), s\<lparr>incomingOrders := rest @ [front]\<rparr>)
         \<and> length (rest @ [front]) = length (incomingOrders s)"
  using assms by (simp add: processNextOrder_def revertLastDelivery_def)

theorem process_then_revert_witness:
  "incomingOrders interleaved
     = [\<lparr>id' = 1001, restaurant = ''A'', destination = ''B'', price = 10\<rparr>,
        \<lparr>id' = 1003, restaurant = ''Depot'', destination = ''B'', price = 30\<rparr>]
   \<and> processNextOrder interleaved = (Delivered 1001, snd (processNextOrder interleaved))
   \<and> revertLastDelivery (snd (processNextOrder interleaved))
       = (Reverted 1001,
          interleaved\<lparr>incomingOrders :=
            [\<lparr>id' = 1003, restaurant = ''Depot'', destination = ''B'', price = 30\<rparr>,
             \<lparr>id' = 1001, restaurant = ''A'', destination = ''B'', price = 10\<rparr>]\<rparr>)
   \<and> length (incomingOrders interleaved) = 2"
proof -
  have q: "incomingOrders interleaved
             = \<lparr>id' = 1001, restaurant = ''A'', destination = ''B'', price = 10\<rparr>
               # [\<lparr>id' = 1003, restaurant = ''Depot'', destination = ''B'', price = 30\<rparr>]"
    by (simp add: interleaved_def)
  from process_then_revert [OF q] q show ?thesis by simp
qed

text \<open>
  C7, as stated, fails on a graph with negative distances.  In the graph that
  \<open>fork_commands\<close> build, the query from C to A returns the path C, A of distance \<open>-4\<close>.
  The search from A ends with \<^verbatim>\<open>distances[C]\<close> at \<open>-12\<close>, and the query from A to C
  never returns: B and C are each other's predecessor, and the walk back from C goes
  round them.
\<close>

theorem negative_weights_not_symmetric:
  "map_option (\<lambda>r. deliveryGraph (snd r)) (run initial fork_commands) = Some fork_graph
   \<and> findShortestPath fork_graph ''C'' ''A'' = Some ([''C'', ''A''], fork_graph)
   \<and> fst (calculatePathDistance fork_graph [''C'', ''A'']) = - 4
   \<and> dijkstra_distance fork_graph ''C'' ''A'' = - 4
   \<and> dijkstra_distance fork_graph ''A'' ''C'' = - 12
   \<and> findShortestPath fork_graph ''A'' ''C'' = None"
proof -
  have 1: "map_option (\<lambda>r. deliveryGraph (snd r)) (run initial fork_commands) = Some fork_graph
   \<and> findShortestPath fork_graph ''C'' ''A'' = Some ([''C'', ''A''], fork_graph)
   \<and> fst (calculatePathDistance fork_graph [''C'', ''A'']) = - 4
   \<and> dijkstra_distance fork_graph ''C'' ''A'' = - 4
   \<and> dijkstra_distance fork_graph ''A'' ''C'' = - 12"
    by code_simp
  have m: "map_count fork_graph ''A''" by code_simp
  have d: "distances (search fork_graph ''A'') ''C'' = Some (- 12)" by code_simp
  have p: "predecessors (search fork_graph ''A'') ''C'' = Some ''B''"
    "predecessors (search fork_graph ''A'') ''B'' = Some ''C''"
    by code_simp+
  have "walkBack (predecessors (search fork_graph ''A'')) ''A'' ''C'' [] = None"
    using p by (rule walkBack_cycle) simp_all
  then have "findShortestPath fork_graph ''A'' ''C'' = None"
    by (simp add: findShortestPath_known [OF m] d INT_MAX_def)
  with 1 show ?thesis by simp
qed

text \<open>
  C7, amended.  On every valid, undirected graph with bounded weights, for known
  locations \<open>a\<close> and \<open>b\<close>, the query from \<open>a\<close> to \<open>b\<close> and the query from \<open>b\<close> to \<open>a\<close> both
  return; the distances that \<open>calculatePathDistance\<close> gives for the two paths are equal,
  and so are the entries \<^verbatim>\<open>distances[b]\<close> of the search from \<open>a\<close> and
  \<^verbatim>\<open>distances[a]\<close> of the search from \<open>b\<close>.
\<close>

theorem shortest_distance_symmetric:
  assumes vg: "valid_graph g" and un: "undirected g" and bw: "bounded_weights g"
    and ma: "map_count g a" and mb: "map_count g b"
  shows "\<exists>p q. findShortestPath g a b = Some (p, g) \<and> findShortestPath g b a = Some (q, g)
     \<and> fst (calculatePathDistance g p) = fst (calculatePathDistance g q)
     \<and> dijkstra_distance g a b = dijkstra_distance g b a"
proof -
  from shortest_path_spec [OF vg bw, of a b] obtain p where
    fp: "findShortestPath g a b = Some (p, g)"
    and ep: "(p = []) = (\<not> map_count g a \<or> \<not> map_count g b \<or> a = b
                        \<or> dval (search g a) b = INT_MAX)"
    and wp: "p \<noteq> [] \<longrightarrow> is_walk g p \<and> hd p = a \<and> last p = b
                          \<and> walk_weight g p = dval (search g a) b"
    by blast
  from shortest_path_spec [OF vg bw, of b a] obtain q where
    fq: "findShortestPath g b a = Some (q, g)"
    and eq: "(q = []) = (\<not> map_count g b \<or> \<not> map_count g a \<or> b = a
                        \<or> dval (search g b) a = INT_MAX)"
    and wq: "q \<noteq> [] \<longrightarrow> is_walk g q \<and> hd q = b \<and> last q = a
                          \<and> walk_weight g q = dval (search g b) a"
    by blast
  have sym: "dijkstra_distance g a b = dijkstra_distance g b a"
    using vg un bw ma mb by (rule dijkstra_distance_sym)
  then have sym': "dval (search g a) b = dval (search g b) a"
    by (simp add: dijkstra_distance_def)
  have both: "(p = []) = (q = [])" unfolding ep eq sym' by auto
  have "fst (calculatePathDistance g p) = fst (calculatePathDistance g q)"
  proof (cases "p = []")
    case True
    with both show ?thesis by simp
  next
    case False
    with both have nq: "q \<noteq> []" by simp
    have "walk_weight g p \<le> INT_MAX" "walk_weight g q \<le> INT_MAX"
      using False nq wp wq search_dist_range(2) [OF vg bw ma] search_dist_range(2) [OF vg bw mb]
      by simp_all
    with False nq wp wq bw
    have "calculatePathDistance g p = (walk_weight g p, g)"
      "calculatePathDistance g q = (walk_weight g q, g)"
      by (simp_all add: calculatePathDistance_walk)
    with False nq wp wq sym' show ?thesis by simp
  qed
  with fp fq sym show ?thesis by blast
qed

theorem shortest_distance_symmetric_witness:
  "findShortestPath (deliveryGraph scenario) ''Depot'' ''B''
     = Some ([''Depot'', ''A'', ''B''], deliveryGraph scenario)
   \<and> findShortestPath (deliveryGraph scenario) ''B'' ''Depot''
     = Some ([''B'', ''A'', ''Depot''], deliveryGraph scenario)
   \<and> fst (calculatePathDistance (deliveryGraph scenario) [''Depot'', ''A'', ''B''])
     = fst (calculatePathDistance (deliveryGraph scenario) [''B'', ''A'', ''Depot''])
   \<and> dijkstra_distance (deliveryGraph scenario) ''Depot'' ''B''
     = dijkstra_distance (deliveryGraph scenario) ''B'' ''Depot''"
proof -
  have f: "findShortestPath (deliveryGraph scenario) ''Depot'' ''B''
     = Some ([''Depot'', ''A'', ''B''], deliveryGraph scenario)"
    "findShortestPath (deliveryGraph scenario) ''B'' ''Depot''
     = Some ([''B'', ''A'', ''Depot''], deliveryGraph scenario)"
    by code_simp+
  have m: "map_count (deliveryGraph scenario) ''Depot''" "map_count (deliveryGraph scenario) ''B''"
    by (simp_all add: scenario_def map_count_def)
  from shortest_distance_symmetric [OF scenario_graph_ok m] f show ?thesis by auto
qed

text \<open>
  C8.  With the leg from A to B unreachable, the report gives that leg the distance 0
  and a numeric total, 5, instead of the missing-route lines: the empty path that
  \<open>findShortestPath\<close> returns has the distance 0 for \<open>calculatePathDistance\<close>, never
  \<open>INT_MAX\<close>.  The reachable leg is reported with its path and distance.
\<close>

theorem unreachable_leg_reported_as_zero:
  "optimizeDeliveryRoute disconnected 1001
     = Some (RouteReport \<lparr>leg1_distance = Some 5, leg1_path = Some [''Depot'', ''A''],
                          leg2_distance = Some 0, leg2_path = None,
                          total = Some 5\<rparr>, disconnected)"
  by code_simp

text \<open>
  C9, as stated, fails: \<open>addRoute\<close> records the distance it is given without looking
  at its sign.  Registering Depot and A and adding the route Depot--A with distance \<open>-5\<close>
  leaves the weight \<open>-5\<close> in the graph, in both directions.
\<close>

theorem negative_distance_recorded:
  "map_option (\<lambda>r. deliveryGraph (snd r))
     (run (initial :: int FoodDeliverySystem)
        [AddLocation ''Depot'', AddLocation ''A'', AddRoute ''Depot'' ''A'' (- 5)])
   = Some [(''A'', [(''Depot'', - 5)]), (''Depot'', [(''A'', - 5)])]"
  by code_simp

text \<open>
  C9, amended.  In every state reached from the initial one, every edge weight stored in
  the graph is a distance that an \<open>addRoute\<close> command of the run was given; so the
  weights are non-negative when all those distances are.
\<close>

theorem weights_are_route_distances:
  assumes "run initial cmds = Some (outs, s)"
  shows "all_weights (deliveryGraph s) \<subseteq> set (concat (map route_distance cmds))
         \<and> ((\<forall>d \<in> set (concat (map route_distance cmds)). 0 \<le> d)
              \<longrightarrow> (\<forall>w \<in> all_weights (deliveryGraph s). 0 \<le> w))"
proof -
  have "all_weights (deliveryGraph (initial :: 'a FoodDeliverySystem)) = {}"
    by (simp add: initial_def all_weights_def)
  with run_weights [OF assms]
  have "all_weights (deliveryGraph s) \<subseteq> set (concat (map route_distance cmds))" by simp
  then show ?thesis by blast
qed

theorem weights_are_route_distances_witness:
  "all_weights (deliveryGraph scenario) = {3, 5}
   \<and> set (concat (map route_distance scenario_commands)) = {3, 5}"
proof -
  have "all_weights (deliveryGraph scenario) = {3, 5}"
    by (auto simp: scenario_def all_weights_def)
  moreover have "set (concat (map route_distance scenario_commands)) = {3, 5}"
    by (auto simp: scenario_commands_def)
  ultimately show ?thesis
    using weights_are_route_distances [OF scenario_reached] by simp
qed

text \<open>
  C10.  Whenever \<open>optimizeDeliveryRoute\<close> returns, in its report and in each of its
  failure branches, the state it leaves is the state it was called in: the graph, the
  pending queue, the completed stack, the order index and the next-id counter are
  unchanged.  (On a valid graph with bounded weights it does return, by lemma
  \<open>optimizeDeliveryRoute_returns\<close>.)
\<close>

theorem optimizeDeliveryRoute_pure:
  "optimizeDeliveryRoute s orderId = Some (out, s') \<Longrightarrow> s' = s"
  by (rule optimizeDeliveryRoute_frame)

theorem optimizeDeliveryRoute_pure_witness:
  "optimizeDeliveryRoute scenario 1001
     = Some (RouteReport \<lparr>leg1_distance = Some 5, leg1_path = Some [''Depot'', ''A''],
                          leg2_distance = Some 3, leg2_path = Some [''A'', ''B''],
                          total = Some 8\<rparr>, scenario)
   \<and> optimizeDeliveryRoute scenario 7 = Some (OrderNotFound 7, scenario)"
proof -
  have "map_option fst (optimizeDeliveryRoute scenario 1001)
     = Some (RouteReport \<lparr>leg1_distance = Some 5, leg1_path = Some [''Depot'', ''A''],
                          leg2_distance = Some 3, leg2_path = Some [''A'', ''B''],
                          total = Some 8\<rparr>)"
    by code_simp
  then obtain s1 where r1: "optimizeDeliveryRoute scenario 1001
     = Some (RouteReport \<lparr>leg1_distance = Some 5, leg1_path = Some [''Depot'', ''A''],
                          leg2_distance = Some 3, leg2_path = Some [''A'', ''B''],
                          total = Some 8\<rparr>, s1)"
    by (cases "optimizeDeliveryRoute scenario 1001") auto
  have "map_option fst (optimizeDeliveryRoute scenario 7) = Some (OrderNotFound 7)"
    by code_simp
  then obtain s2 where r2: "optimizeDeliveryRoute scenario 7 = Some (OrderNotFound 7, s2)"
    by (cases "optimizeDeliveryRoute scenario 7") auto
  show ?thesis
    using r1 r2 optimizeDeliveryRoute_pure [OF r1] optimizeDeliveryRoute_pure [OF r2] by simp
qed

end
